theory Spec2Isabelle
  imports Complex_Main "HOL-Library.Sublist"
begin

section \<open>JavaScript strings\<close>

text \<open>
  The server of the repository (the JavaScript listing of \<^verbatim>\<open>src/README.md\<close>, from
  \<^verbatim>\<open>const express = require('express')\<close> on) cleans the Terraform text that the
  language model returns with a chain of \<^verbatim>\<open>String.prototype.replace\<close> calls over
  regular expressions. A text is a \<^typ>\<open>string\<close>; its characters stand for the UTF-16
  code units below 256.
\<close>

definition isLineTerminator :: "char \<Rightarrow> bool" where
  "isLineTerminator c \<longleftrightarrow> c = CHR 0x0A \<or> c = CHR 0x0D"

definition isWhiteSpace :: "char \<Rightarrow> bool" where
  "isWhiteSpace c \<longleftrightarrow>
     c = CHR 0x09 \<or> c = CHR 0x0A \<or> c = CHR 0x0B \<or> c = CHR 0x0C \<or> c = CHR 0x0D \<or>
     c = CHR 0x20 \<or> c = CHR 0xA0"

definition isWordChar :: "char \<Rightarrow> bool" where
  "isWordChar c \<longleftrightarrow>
     (let n = (of_char c :: nat)
      in (97 \<le> n \<and> n \<le> 122) \<or> (65 \<le> n \<and> n \<le> 90) \<or> (48 \<le> n \<and> n \<le> 57) \<or> n = 95)"

definition lowerChar :: "char \<Rightarrow> char" where
  "lowerChar c =
     (let n = (of_char c :: nat)
      in if (65 \<le> n \<and> n \<le> 90) \<or> (192 \<le> n \<and> n \<le> 222 \<and> n \<noteq> 215)
         then char_of (n + 32) else c)"

definition toLowerCase :: "string \<Rightarrow> string" where
  "toLowerCase s = map lowerChar s"

definition trim :: "string \<Rightarrow> string" where
  "trim s = rev (dropWhile isWhiteSpace (rev (dropWhile isWhiteSpace s)))"

primrec indexFrom :: "nat \<Rightarrow> string \<Rightarrow> string \<Rightarrow> int" where
  "indexFrom i w [] = (if w = [] then int i else - 1)"
| "indexFrom i w (c # cs) = (if prefix w (c # cs) then int i else indexFrom (Suc i) w cs)"

definition indexOf :: "string \<Rightarrow> string \<Rightarrow> int" where
  "indexOf s w = indexFrom 0 w s"

primrec lastIndexFrom :: "nat \<Rightarrow> char \<Rightarrow> string \<Rightarrow> int \<Rightarrow> int" where
  "lastIndexFrom i x [] found = found"
| "lastIndexFrom i x (c # cs) found = lastIndexFrom (Suc i) x cs (if c = x then int i else found)"

definition lastIndexOf :: "string \<Rightarrow> char \<Rightarrow> int" where
  "lastIndexOf s x = lastIndexFrom 0 x s (- 1)"

definition substring :: "string \<Rightarrow> int \<Rightarrow> int \<Rightarrow> string" where
  "substring s a b = (let lo = nat (min a b); hi = nat (max a b) in drop lo (take hi s))"

definition substringFrom :: "string \<Rightarrow> int \<Rightarrow> string" where
  "substringFrom s a = drop (nat a) s"

section \<open>Regular expressions with backtracking\<close>

text \<open>
  The constructs the patterns of the server use. \<open>Bol\<close> and \<open>Eol\<close> are \<^verbatim>\<open>^\<close> and
  \<^verbatim>\<open>$\<close> under the \<^verbatim>\<open>m\<close> flag (every such anchor of the server has it).
  A position is the rest of the text together with the fact that the position
  starts a line.
\<close>

datatype rx =
    Lit string
  | Cls "char \<Rightarrow> bool"
  | Seq rx rx
  | Alt rx rx
  | Star rx
  | Lazy rx
  | Opt rx
  | Bol
  | Eol

type_synonym pos = "bool \<times> string"

text \<open>
  \<open>ms r p\<close> lists the positions where a match of \<open>r\<close> from \<open>p\<close> can end, in the
  order in which the backtracking matcher of ECMAScript tries them. An iteration of
  a starred pattern that consumes nothing is rejected, as the language does; every
  accepted iteration shortens the rest, so the length of the rest bounds their number.
\<close>

primrec star_iter :: "(pos \<Rightarrow> pos list) \<Rightarrow> nat \<Rightarrow> pos \<Rightarrow> pos list" where
  "star_iter f 0 p = [p]"
| "star_iter f (Suc n) p =
     concat (map (\<lambda>q. if length (snd q) < length (snd p) then star_iter f n q else []) (f p)) @ [p]"

primrec lazy_iter :: "(pos \<Rightarrow> pos list) \<Rightarrow> nat \<Rightarrow> pos \<Rightarrow> pos list" where
  "lazy_iter f 0 p = [p]"
| "lazy_iter f (Suc n) p =
     p # concat (map (\<lambda>q. if length (snd q) < length (snd p) then lazy_iter f n q else []) (f p))"

primrec ms :: "rx \<Rightarrow> pos \<Rightarrow> pos list" where
  "ms (Lit w) p =
     (if prefix w (snd p)
      then [(if w = [] then fst p else isLineTerminator (last w), drop (length w) (snd p))]
      else [])"
| "ms (Cls P) p =
     (case snd p of [] \<Rightarrow> [] | c # cs \<Rightarrow> if P c then [(isLineTerminator c, cs)] else [])"
| "ms (Seq r1 r2) p = concat (map (ms r2) (ms r1 p))"
| "ms (Alt r1 r2) p = ms r1 p @ ms r2 p"
| "ms (Star r) p = star_iter (ms r) (length (snd p)) p"
| "ms (Lazy r) p = lazy_iter (ms r) (length (snd p)) p"
| "ms (Opt r) p = filter (\<lambda>q. length (snd q) < length (snd p)) (ms r p) @ [p]"
| "ms Bol p = (if fst p then [p] else [])"
| "ms Eol p = (case snd p of [] \<Rightarrow> [p] | c # cs \<Rightarrow> if isLineTerminator c then [p] else [])"

definition Plus :: "rx \<Rightarrow> rx" where
  "Plus r = Seq r (Star r)"

fun seqs :: "rx list \<Rightarrow> rx" where
  "seqs [] = Lit []"
| "seqs [r] = r"
| "seqs (r # rs) = Seq r (seqs rs)"

definition ws :: rx where
  "ws = Cls isWhiteSpace"

definition no :: "string \<Rightarrow> rx" where
  "no cs = Cls (\<lambda>c. c \<notin> set cs)"

definition anything :: rx where
  "anything = Cls (\<lambda>c. True)"

definition dot :: rx where
  "dot = Cls (\<lambda>c. \<not> isLineTerminator c)"

text \<open>
  A matcher gives, at a position, the length of the first match and the text of its
  capture group 1. \<open>plain\<close> is a pattern whose groups are not read; \<open>grouped a g b\<close>
  is the pattern \<^verbatim>\<open>a(g)b\<close>.
\<close>

type_synonym matcher = "pos \<Rightarrow> (nat \<times> string) option"

definition plain :: "rx \<Rightarrow> matcher" where
  "plain r p =
     (case ms r p of [] \<Rightarrow> None | q # qs \<Rightarrow> Some (length (snd p) - length (snd q), []))"

definition grouped :: "rx \<Rightarrow> rx \<Rightarrow> rx \<Rightarrow> matcher" where
  "grouped a g b p =
     (case concat (map (\<lambda>q. concat (map (\<lambda>q'. map (\<lambda>q''. (q, q', q'')) (ms b q')) (ms g q)))
                     (ms a p)) of
        [] \<Rightarrow> None
      | (q, q', q'') # qs \<Rightarrow>
          Some (length (snd p) - length (snd q''),
                take (length (snd q) - length (snd q')) (snd q)))"

text \<open>
  \<^verbatim>\<open>replace\<close> with the \<^verbatim>\<open>g\<close> flag walks the text from left to right; after a
  match the search goes on where the match ended, one character further when the
  match was empty. \<open>scan m k b s\<close> has \<open>k\<close> characters of the last match still to skip.
\<close>

datatype seg = Gap char | Hit string string

primrec scan :: "matcher \<Rightarrow> nat \<Rightarrow> bool \<Rightarrow> string \<Rightarrow> seg list" where
  "scan m k b [] =
     (if k = 0 then (case m (b, []) of None \<Rightarrow> [] | Some (n, g) \<Rightarrow> [Hit [] g]) else [])"
| "scan m k b (c # cs) =
     (if 0 < k then scan m (k - 1) (isLineTerminator c) cs
      else case m (b, c # cs) of
             None \<Rightarrow> Gap c # scan m 0 (isLineTerminator c) cs
           | Some (n, g) \<Rightarrow>
               Hit (take n (c # cs)) g #
                 (if n = 0 then Gap c # scan m 0 (isLineTerminator c) cs
                  else scan m (n - 1) (isLineTerminator c) cs))"

definition segments :: "matcher \<Rightarrow> string \<Rightarrow> seg list" where
  "segments m s = scan m 0 True s"

definition replaceAll :: "matcher \<Rightarrow> (string \<Rightarrow> string \<Rightarrow> string) \<Rightarrow> string \<Rightarrow> string" where
  "replaceAll m f s =
     concat (map (\<lambda>x. case x of Gap c \<Rightarrow> [c] | Hit w g \<Rightarrow> f w g) (segments m s))"

definition found :: "matcher \<Rightarrow> string \<Rightarrow> string list" where
  "found m s = concat (map (\<lambda>x. case x of Gap c \<Rightarrow> [] | Hit w g \<Rightarrow> [w]) (segments m s))"

text \<open>\<^verbatim>\<open>match\<close> and \<^verbatim>\<open>test\<close> without the \<^verbatim>\<open>g\<close> flag: the leftmost match, as
  (index, matched text, group 1).\<close>

primrec search :: "matcher \<Rightarrow> nat \<Rightarrow> bool \<Rightarrow> string \<Rightarrow> (nat \<times> string \<times> string) option" where
  "search m i b [] = (case m (b, []) of None \<Rightarrow> None | Some (n, g) \<Rightarrow> Some (i, [], g))"
| "search m i b (c # cs) =
     (case m (b, c # cs) of
        None \<Rightarrow> search m (Suc i) (isLineTerminator c) cs
      | Some (n, g) \<Rightarrow> Some (i, take n (c # cs), g))"

definition match :: "matcher \<Rightarrow> string \<Rightarrow> (nat \<times> string \<times> string) option" where
  "match m s = search m 0 True s"

definition test :: "matcher \<Rightarrow> string \<Rightarrow> bool" where
  "test m s \<longleftrightarrow> match m s \<noteq> None"

section \<open>The cleanup of the generated Terraform text\<close>

text \<open>
  The patterns of the handler of \<^verbatim>\<open>POST /upload\<close>, each written as the source writes
  it (in the comment) and as a value of \<^typ>\<open>rx\<close>.
\<close>

subsection \<open>Generic cleanups\<close>

text \<open>\<^verbatim>\<open>/resource\s+"local_file"\s+"[^"]+"\s*{[^}]*}/gs\<close>\<close>

definition rx_local_file :: rx where
  \<open>rx_local_file =
     seqs [Lit ''resource'', Plus ws, Lit ''"local_file"'', Plus ws,
           Lit ''"'', Plus (no ''"''), Lit ''"'', Star ws, Lit ''{'', Star (no ''}''), Lit ''}'']\<close>

text \<open>\<^verbatim>\<open>/data\s+"archive_file"\s+"[^"]+"\s*{[^}]*}/gs\<close>\<close>

definition rx_archive_file :: rx where
  \<open>rx_archive_file =
     seqs [Lit ''data'', Plus ws, Lit ''"archive_file"'', Plus ws,
           Lit ''"'', Plus (no ''"''), Lit ''"'', Star ws, Lit ''{'', Star (no ''}''), Lit ''}'']\<close>

text \<open>\<^verbatim>\<open>/source_code_hash\s*=\s*filebase64sha256\(.*\)\n?/g\<close>\<close>

definition rx_source_code_hash :: rx where
  \<open>rx_source_code_hash =
     seqs [Lit ''source_code_hash'', Star ws, Lit ''='', Star ws, Lit ''filebase64sha256('',
           Star dot, Lit '')'', Opt (Lit ''\<newline>'')]\<close>

definition removeLocalFiles :: "string \<Rightarrow> string" where
  "removeLocalFiles s = replaceAll (plain rx_local_file) (\<lambda>w g. []) s"

definition removeArchiveFiles :: "string \<Rightarrow> string" where
  "removeArchiveFiles s = replaceAll (plain rx_archive_file) (\<lambda>w g. []) s"

definition removeHashes :: "string \<Rightarrow> string" where
  "removeHashes s = replaceAll (plain rx_source_code_hash) (\<lambda>w g. []) s"

definition genericCleanups :: "string \<Rightarrow> string" where
  "genericCleanups s = removeHashes (removeArchiveFiles (removeLocalFiles s))"

subsection \<open>Patterns shared by the provider branches\<close>

text \<open>\<^verbatim>\<open>/(resource\s+"KIND"\s+"[^"]+"\s*{[\s\S]*?})/g\<close>, for
  \<^verbatim>\<open>aws_lambda_function\<close>, \<^verbatim>\<open>google_cloud_function\<close> and
  \<^verbatim>\<open>azurerm_function_app\<close>.\<close>

definition rx_resource :: "string \<Rightarrow> rx" where
  \<open>rx_resource kind =
     seqs [Lit ''resource'', Plus ws, Lit (''"'' @ kind @ ''"''), Plus ws,
           Lit ''"'', Plus (no ''"''), Lit ''"'', Star ws, Lit ''{'', Lazy anything, Lit ''}'']\<close>

text \<open>\<^verbatim>\<open>/^(\s*)resource/m\<close>, and the indentation \<^verbatim>\<open>blockContentIndent\<close> that the
  callbacks for Amazon and Google derive from it.\<close>

definition m_indent :: matcher where
  "m_indent = grouped Bol (Star ws) (Lit ''resource'')"

definition blockContentIndent :: "string \<Rightarrow> string" where
  "blockContentIndent block =
     (let originalIndent = (case match m_indent block of None \<Rightarrow> [] | Some (i, w, g) \<Rightarrow> g)
      in originalIndent @ ''  '')"

text \<open>\<^verbatim>\<open>/\s*NAME\s*=\s*.*?\n/g\<close>, for \<^verbatim>\<open>filename\<close> and the four source
  attributes of a Google function.\<close>

definition rx_attribute_line :: "string \<Rightarrow> rx" where
  \<open>rx_attribute_line name =
     seqs [Star ws, Lit name, Star ws, Lit ''='', Star ws, Lazy dot, Lit ''\<newline>'']\<close>

text \<open>\<^verbatim>\<open>/NAME\s*=\s*".*?"/\<close>, for \<^verbatim>\<open>handler\<close>, \<^verbatim>\<open>source_archive_url\<close>
  and \<^verbatim>\<open>entry_point\<close>.\<close>

definition rx_quoted_attribute :: "string \<Rightarrow> rx" where
  \<open>rx_quoted_attribute name =
     seqs [Lit name, Star ws, Lit ''='', Star ws, Lit ''"'', Lazy dot, Lit ''"'']\<close>

subsection \<open>Amazon: \<^verbatim>\<open>aws_lambda_function\<close>\<close>

text \<open>\<^verbatim>\<open>/runtime\s*=\s*"(python[^"]*|node[^"]*|go[^"]*|java[^"]*|ruby[^"]*)"/\<close>\<close>

definition m_runtime :: matcher where
  \<open>m_runtime =
     grouped (seqs [Lit ''runtime'', Star ws, Lit ''='', Star ws, Lit ''"''])
       (Alt (Seq (Lit ''python'') (Star (no ''"'')))
         (Alt (Seq (Lit ''node'') (Star (no ''"'')))
           (Alt (Seq (Lit ''go'') (Star (no ''"'')))
             (Alt (Seq (Lit ''java'') (Star (no ''"'')))
                  (Seq (Lit ''ruby'') (Star (no ''"'')))))))
       (Lit ''"'')\<close>

text \<open>\<^verbatim>\<open>/handler\s*=\s*"([^"]*)"/\<close>\<close>

definition m_handler :: matcher where
  \<open>m_handler =
     grouped (seqs [Lit ''handler'', Star ws, Lit ''='', Star ws, Lit ''"''])
       (Star (no ''"'')) (Lit ''"'')\<close>

text \<open>\<^verbatim>\<open>/\s*inline_code\s*{[\s\S]*?}\n/g\<close>\<close>

definition rx_inline_code :: rx where
  \<open>rx_inline_code =
     seqs [Star ws, Lit ''inline_code'', Star ws, Lit ''{'', Lazy anything, Lit ''}\<newline>'']\<close>

text \<open>\<^verbatim>\<open>/(\s*)(function_name\s*=\s*".*?"|\s*role\s*=\s*[^}\n]*)/\<close>\<close>

definition m_fnNameOrRoleLine :: matcher where
  \<open>m_fnNameOrRoleLine =
     grouped (Lit []) (Star ws)
       (Alt (rx_quoted_attribute ''function_name'')
            (seqs [Star ws, Lit ''role'', Star ws, Lit ''='', Star ws, Star (no ''}\<newline>'')]))\<close>

text \<open>\<^verbatim>\<open>/source_code\s*=\s*(".*?"|<<EOF[\s\S]*?EOF)/\<close>\<close>

definition rx_source_code :: rx where
  \<open>rx_source_code =
     seqs [Lit ''source_code'', Star ws, Lit ''='', Star ws,
           Alt (seqs [Lit ''"'', Lazy dot, Lit ''"''])
               (seqs [Lit ''<<EOF'', Lazy anything, Lit ''EOF''])]\<close>

text \<open>The two characters \<^verbatim>\<open>\"\<close> that the template literals of the placeholder
  code write as \<^verbatim>\<open>\\"\<close>.\<close>

definition bq :: string where
  "bq = [CHR 0x5C, CHR 0x22]"

definition placeholderCode :: "string \<Rightarrow> string \<Rightarrow> string" where
  \<open>placeholderCode runtime handlerValue =
     (let handlerFunctionName = takeWhile (\<lambda>c. c \<noteq> CHR ''.'') handlerValue
      in if prefix ''node'' runtime
         then ''exports.'' @ handlerFunctionName @
              '' = async (event) => { return { statusCode: 200, body: JSON.stringify('' @ bq @
              ''OK'' @ bq @ '') }; };''
         else if prefix ''python'' runtime
         then ''def '' @ handlerFunctionName @ ''(event, context): return {'' @ bq @
              ''statusCode'' @ bq @ '': 200, '' @ bq @ ''body'' @ bq @ '': '' @ bq @ ''OK'' @ bq @ ''}''
         else ''/* Placeholder code for '' @ handlerValue @ '' */'')\<close>

definition stripLambdaAttributes :: "string \<Rightarrow> string" where
  \<open>stripLambdaAttributes b =
     replaceAll (plain rx_inline_code) (\<lambda>w g. ''\<newline>'')
       (replaceAll (plain (rx_attribute_line ''filename'')) (\<lambda>w g. ''\<newline>'') b)\<close>

definition ensureHandler :: "string \<Rightarrow> string \<Rightarrow> string \<Rightarrow> string" where
  \<open>ensureHandler indent handlerValue modifiedBlock =
     (if \<not> test (plain (rx_quoted_attribute ''handler'')) modifiedBlock
      then (let (insertPoint, currentLineIndent) =
                  (case match m_fnNameOrRoleLine modifiedBlock of
                     None \<Rightarrow> (indexOf modifiedBlock ''{'' + 1, indent)
                   | Some (i, w, g) \<Rightarrow>
                       (indexOf modifiedBlock w + int (length w),
                        if g = [] then indent else g))
            in substring modifiedBlock 0 insertPoint @
               ''\<newline>'' @ currentLineIndent @ ''handler          = "'' @ handlerValue @ ''"'' @
               substringFrom modifiedBlock insertPoint)
      else modifiedBlock)\<close>

definition ensureSourceCode :: "string \<Rightarrow> string \<Rightarrow> string \<Rightarrow> string" where
  \<open>ensureSourceCode indent code modifiedBlock =
     (if \<not> test (plain rx_source_code) modifiedBlock
      then (let lastBraceIndex = lastIndexOf modifiedBlock (CHR ''}'')
            in if lastBraceIndex \<noteq> - 1
               then substring modifiedBlock 0 lastBraceIndex @
                    indent @ ''source_code      = "'' @ code @ ''"\<newline>'' @
                    substringFrom modifiedBlock lastBraceIndex
               else modifiedBlock)
      else modifiedBlock)\<close>

definition lambdaBlockRewrite :: "string \<Rightarrow> string" where
  \<open>lambdaBlockRewrite lambdaBlock =
     (let runtime = (case match m_runtime lambdaBlock of
                       None \<Rightarrow> ''python3.9'' | Some (i, w, g) \<Rightarrow> g);
          handlerValue = (case match m_handler lambdaBlock of
                            None \<Rightarrow> ''handler.handler'' | Some (i, w, g) \<Rightarrow> g)
      in ensureSourceCode (blockContentIndent lambdaBlock) (placeholderCode runtime handlerValue)
           (ensureHandler (blockContentIndent lambdaBlock) handlerValue
              (stripLambdaAttributes lambdaBlock)))\<close>

subsection \<open>Google: \<^verbatim>\<open>google_cloud_function\<close>\<close>

definition stripGcpAttributes :: "string \<Rightarrow> string" where
  \<open>stripGcpAttributes b =
     replaceAll (plain (rx_attribute_line ''source_archive_object'')) (\<lambda>w g. ''\<newline>'')
      (replaceAll (plain (rx_attribute_line ''source_archive_bucket'')) (\<lambda>w g. ''\<newline>'')
        (replaceAll (plain (rx_attribute_line ''build_environment_variables'')) (\<lambda>w g. ''\<newline>'')
          (replaceAll (plain (rx_attribute_line ''source_repository'')) (\<lambda>w g. ''\<newline>'') b)))\<close>

definition ensureQuoted :: "string \<Rightarrow> string \<Rightarrow> string \<Rightarrow> string" where
  \<open>ensureQuoted name line modifiedBlock =
     (if \<not> test (plain (rx_quoted_attribute name)) modifiedBlock
      then (let lastBraceIndex = lastIndexOf modifiedBlock (CHR ''}'')
            in if lastBraceIndex \<noteq> - 1
               then substring modifiedBlock 0 lastBraceIndex @ line @
                    substringFrom modifiedBlock lastBraceIndex
               else modifiedBlock)
      else modifiedBlock)\<close>

definition gcpFunctionBlockRewrite :: "string \<Rightarrow> string" where
  \<open>gcpFunctionBlockRewrite gcpFunctionBlock =
     ensureQuoted ''entry_point''
       (blockContentIndent gcpFunctionBlock @ ''entry_point        = "main"\<newline>'')
       (ensureQuoted ''source_archive_url''
          (blockContentIndent gcpFunctionBlock @
           ''source_archive_url = "gs://your-dummy-gcp-bucket/dummy-function.zip"\<newline>'')
          (stripGcpAttributes gcpFunctionBlock))\<close>

subsection \<open>Azure: \<^verbatim>\<open>azurerm_function_app\<close>\<close>

text \<open>\<^verbatim>\<open>/^\s*NAME\s*=\s*".*?"\n?/gm\<close>\<close>

definition rx_setting :: "string \<Rightarrow> rx" where
  \<open>rx_setting name =
     seqs [Bol, Star ws, Lit name, Star ws, Lit ''='', Star ws, Lit ''"'', Lazy dot, Lit ''"'',
           Opt (Lit ''\<newline>'')]\<close>

text \<open>\<^verbatim>\<open>/^\s*APPINSIGHTS_INSTRUMENTATIONKEY\s*=\s*.*?\n?/gm\<close>\<close>

definition rx_appinsights_unquoted :: rx where
  \<open>rx_appinsights_unquoted =
     seqs [Bol, Star ws, Lit ''APPINSIGHTS_INSTRUMENTATIONKEY'', Star ws, Lit ''='', Star ws,
           Lazy dot, Opt (Lit ''\<newline>'')]\<close>

text \<open>\<^verbatim>\<open>/(app_settings\s*=\s*{[\s\S]*?})/g\<close>\<close>

definition rx_app_settings :: rx where
  \<open>rx_app_settings =
     seqs [Lit ''app_settings'', Star ws, Lit ''='', Star ws, Lit ''{'', Lazy anything, Lit ''}'']\<close>

text \<open>\<^verbatim>\<open>/[a-zA-Z0-9_]+=/\<close>\<close>

definition rx_assignment :: rx where
  \<open>rx_assignment = seqs [Plus (Cls isWordChar), Lit ''='']\<close>

definition appSettingsRewrite :: "string \<Rightarrow> string" where
  \<open>appSettingsRewrite appSettingsBlock =
     (let cleanedAppSettings =
            replaceAll (plain (rx_setting ''APPINSIGHTS_INSTRUMENTATIONKEY'')) (\<lambda>w g. [])
              (replaceAll (plain (rx_setting ''FUNCTIONS_WORKER_RUNTIME'')) (\<lambda>w g. [])
                (replaceAll (plain (rx_setting ''WEBSITE_RUN_FROM_PACKAGE'')) (\<lambda>w g. [])
                   appSettingsBlock))
      in if trim cleanedAppSettings = ''app_settings = {}'' \<or>
            \<not> test (plain rx_assignment) cleanedAppSettings
         then [] else appSettingsBlock)\<close>

definition azureFunctionBlockRewrite :: "string \<Rightarrow> string" where
  \<open>azureFunctionBlockRewrite azureFunctionBlock =
     replaceAll (plain rx_app_settings) (\<lambda>w g. appSettingsRewrite w)
       (replaceAll (plain rx_appinsights_unquoted) (\<lambda>w g. [])
         (replaceAll (plain (rx_setting ''FUNCTIONS_WORKER_RUNTIME'')) (\<lambda>w g. [])
           (replaceAll (plain (rx_setting ''WEBSITE_RUN_FROM_PACKAGE'')) (\<lambda>w g. [])
              azureFunctionBlock)))\<close>

subsection \<open>The provider branch\<close>

definition providerCleanups :: "string \<Rightarrow> string \<Rightarrow> string" where
  \<open>providerCleanups cloudProvider s =
     (if toLowerCase cloudProvider = ''aws''
      then replaceAll (plain (rx_resource ''aws_lambda_function'')) (\<lambda>w g. lambdaBlockRewrite w) s
      else if toLowerCase cloudProvider = ''gcp''
      then replaceAll (plain (rx_resource ''google_cloud_function''))
             (\<lambda>w g. gcpFunctionBlockRewrite w) s
      else if toLowerCase cloudProvider = ''azure''
      then replaceAll (plain (rx_resource ''azurerm_function_app''))
             (\<lambda>w g. azureFunctionBlockRewrite w) s
      else s)\<close>

subsection \<open>Final general cleanups\<close>

text \<open>\<^verbatim>\<open>/\$\{path\.module\s*$/gm\<close>\<close>

definition rx_path_module :: rx where
  \<open>rx_path_module = seqs [Lit ''${path.module'', Star ws, Eol]\<close>

text \<open>\<^verbatim>\<open>/\$\{([^}]+)\n/g\<close>\<close>

definition m_unclosed :: matcher where
  \<open>m_unclosed = grouped (Lit ''${'') (Plus (no ''}'')) (Lit ''\<newline>'')\<close>

definition fixInterpolations :: "string \<Rightarrow> string" where
  \<open>fixInterpolations s =
     replaceAll m_unclosed (\<lambda>w expr. ''${'' @ trim expr @ ''}'')
       (replaceAll (plain rx_path_module) (\<lambda>w g. ''${path.module}'') s)\<close>

text \<open>\<^verbatim>\<open>/(\n\s*){2,}/g\<close>\<close>

definition rx_empty_lines :: rx where
  \<open>rx_empty_lines =
     (let line = Seq (Lit ''\<newline>'') (Star ws) in Seq line (Seq line (Star line)))\<close>

definition collapseEmptyLines :: "string \<Rightarrow> string" where
  \<open>collapseEmptyLines s = replaceAll (plain rx_empty_lines) (\<lambda>w g. ''\<newline>\<newline>'') s\<close>

text \<open>The collapse of empty lines and the final \<^verbatim>\<open>trim()\<close>.\<close>

definition blankCleanups :: "string \<Rightarrow> string" where
  "blankCleanups s = trim (collapseEmptyLines s)"

definition finalCleanups :: "string \<Rightarrow> string" where
  "finalCleanups s = blankCleanups (fixInterpolations s)"

text \<open>The value of \<^verbatim>\<open>cleanedTerraform\<close> when the handler writes it to the file.\<close>

definition cleanTerraform :: "string \<Rightarrow> string \<Rightarrow> string" where
  "cleanTerraform cloudProvider terraformCode =
     finalCleanups (providerCleanups cloudProvider (genericCleanups terraformCode))"

section \<open>The handlers and the state of the server\<close>

text \<open>
  The server keeps the last cleaned text (\<^verbatim>\<open>lastGeneratedCode\<close>), the path of its file
  (\<^verbatim>\<open>lastTfFilePath\<close>) and, here, the files it has written. The calls that leave the
  process are parameters: the answer of the language model (an exception is \<open>Inl\<close>)
  and the paths that cannot be written.
\<close>

datatype failure = Thrown string

datatype response = Response nat string

record server =
  lastGeneratedCode :: string
  lastTfFilePath :: string
  files :: "string \<rightharpoonup> string"
  locked :: "string list"

definition writeFileSync :: "server \<Rightarrow> string \<Rightarrow> string \<Rightarrow> failure + server" where
  "writeFileSync sv path content =
     (if path \<in> set (locked sv) then Inl (Thrown ''EACCES'')
      else Inr (sv\<lparr>files := (files sv)(path \<mapsto> content)\<rparr>))"

definition supportedProviders :: "string list" where
  "supportedProviders = [''aws'', ''azure'', ''gcp'']"

text \<open>
  The values that the handler reads without knowing their type: the parsed answer of
  the diagram parser (\<^verbatim>\<open>JSON.parse\<close>) and the query parameter, which is a string,
  an array when the parameter is repeated, an object, or \<^verbatim>\<open>undefined\<close>. An object is
  the list of its members in the order of the text. A number counts only through
  being zero or not; \<open>JSInfinite\<close> is a number too large for a double.
\<close>

datatype jsValue =
  JSUndefined
| JSNull
| JSBoolean bool
| JSNumber real
| JSInfinite
| JSString string
| JSArray "jsValue list"
| JSObject "(string \<times> jsValue) list"

text \<open>The test of \<^verbatim>\<open>v ? \<dots> : \<dots>\<close> and \<^verbatim>\<open>v && \<dots>\<close>.\<close>

fun truthy :: "jsValue \<Rightarrow> bool" where
  "truthy JSUndefined = False"
| "truthy JSNull = False"
| "truthy (JSBoolean b) = b"
| "truthy (JSNumber x) = (x \<noteq> 0)"
| "truthy JSInfinite = True"
| "truthy (JSString s) = (s \<noteq> [])"
| "truthy (JSArray xs) = True"
| "truthy (JSObject kvs) = True"

text \<open>\<^verbatim>\<open>v.cloudProvider\<close>: a \<^verbatim>\<open>TypeError\<close> on \<^verbatim>\<open>null\<close> and \<^verbatim>\<open>undefined\<close>, the
  member of an object (the last one of that name), \<^verbatim>\<open>undefined\<close> on every other
  value.\<close>

fun getCloudProvider :: "jsValue \<Rightarrow> failure + jsValue" where
  "getCloudProvider JSUndefined = Inl (Thrown ''TypeError'')"
| "getCloudProvider JSNull = Inl (Thrown ''TypeError'')"
| "getCloudProvider (JSObject kvs) =
     (case map_of (rev kvs) ''cloudProvider'' of None \<Rightarrow> Inr JSUndefined | Some v \<Rightarrow> Inr v)"
| "getCloudProvider v = Inr JSUndefined"

text \<open>\<^verbatim>\<open>v.toLowerCase()\<close>: only a string has the method, on every other value the
  call throws a \<^verbatim>\<open>TypeError\<close>.\<close>

fun callToLowerCase :: "jsValue \<Rightarrow> failure + string" where
  "callToLowerCase (JSString s) = Inr (toLowerCase s)"
| "callToLowerCase v = Inl (Thrown ''TypeError'')"

text \<open>
  The provider detection of \<^verbatim>\<open>POST /upload\<close>: \<open>parsedDiagramJson\<close> is the parsed
  answer of the diagram parser, \<open>query\<close> the query parameter \<^verbatim>\<open>cloudProvider\<close>. The
  result is the exception thrown, the response of a rejection, or the provider.
\<close>

definition resolveProvider :: "jsValue \<Rightarrow> jsValue \<Rightarrow> failure + response + string" where
  "resolveProvider parsedDiagramJson query =
     (case getCloudProvider parsedDiagramJson of
        Inl err \<Rightarrow> Inl err
      | Inr detected \<Rightarrow>
          (case (if truthy detected then callToLowerCase detected else Inr ''unknown'') of
             Inl err \<Rightarrow> Inl err
           | Inr cloudProvider \<Rightarrow>
               if cloudProvider = ''unknown'' \<or> cloudProvider \<notin> set supportedProviders
               then (case (if truthy query then map_sum id Some (callToLowerCase query)
                           else Inr None) of
                       Inl err \<Rightarrow> Inl err
                     | Inr None \<Rightarrow>
                         Inr (Inl (Response 400
                           ''Could not confidently identify the cloud provider from the diagram.''))
                     | Inr (Some u) \<Rightarrow>
                         if u \<in> set supportedProviders then Inr (Inr u)
                         else Inr (Inl (Response 400
                                (''Unsupported cloud provider specified: '' @ [CHR 0x27] @ u @
                                 [CHR 0x27] @ ''. Supported are: aws, azure, gcp.''))))
               else Inr (Inr cloudProvider)))"

text \<open>\<open>gemini\<close> is the answer of the model to the prompt built from the JSON text and
  the provider.\<close>

definition generateTerraformFromJson ::
  "(string \<Rightarrow> string \<Rightarrow> failure + string) \<Rightarrow> string \<Rightarrow> string \<Rightarrow> failure + string" where
  "generateTerraformFromJson gemini jsonString cloudProvider =
     (if toLowerCase cloudProvider \<in> set [''aws'', ''azure'', ''gcp'']
      then gemini jsonString cloudProvider
      else Inl (Thrown (''Unsupported cloud provider: '' @ cloudProvider)))"

definition tflintConfig :: string where
  \<open>tflintConfig =
     ''\<newline>plugin "terraform" {\<newline>  enabled = true\<newline>  preset  = "recommended"\<newline>}\<newline>''\<close>

text \<open>The handler of \<^verbatim>\<open>POST /upload\<close> from the provider detection on; \<open>uniqueId\<close>
  is the identifier that \<^verbatim>\<open>getUniqueTfFilePath\<close> draws, \<open>jsonString\<close> the parsed
  answer written as text again. Every exception goes to the \<^verbatim>\<open>catch\<close> of the
  handler, which answers 500.\<close>

definition upload ::
  "(string \<Rightarrow> string \<Rightarrow> failure + string) \<Rightarrow> string \<Rightarrow> jsValue \<Rightarrow> jsValue \<Rightarrow>
   string \<Rightarrow> server \<Rightarrow> response \<times> server" where
  "upload gemini uniqueId parsedDiagramJson query jsonString sv =
     (case resolveProvider parsedDiagramJson query of
        Inl err \<Rightarrow> (Response 500 ''Error generating Terraform code'', sv)
      | Inr (Inl rejected) \<Rightarrow> (rejected, sv)
      | Inr (Inr cloudProvider) \<Rightarrow>
          (case generateTerraformFromJson gemini jsonString cloudProvider of
             Inl err \<Rightarrow> (Response 500 ''Error generating Terraform code'', sv)
           | Inr terraformCode \<Rightarrow>
               (let cleanedTerraform = cleanTerraform cloudProvider terraformCode;
                    tfDir = ''generated_'' @ uniqueId;
                    tfFilePath = tfDir @ ''/generated_'' @ uniqueId @ ''.tf''
                in case writeFileSync sv tfFilePath cleanedTerraform of
                     Inl err \<Rightarrow> (Response 500 ''Error generating Terraform code'', sv)
                   | Inr sv1 \<Rightarrow>
                       (case writeFileSync sv1 (tfDir @ ''/.tflint.hcl'') tflintConfig of
                          Inl err \<Rightarrow> (Response 500 ''Error generating Terraform code'', sv1)
                        | Inr sv2 \<Rightarrow>
                            (Response 200 cleanedTerraform,
                             sv2\<lparr>lastGeneratedCode := cleanedTerraform,
                                 lastTfFilePath := tfFilePath\<rparr>)))))"

text \<open>
  \<^verbatim>\<open>editTerraformCode\<close> of \<^verbatim>\<open>services/geminiEditorAgent.js\<close>: the answer of the
  model to the prompt built from the code and the instruction, without its code
  fences (\<^verbatim>\<open>/```hcl|```/g\<close>) and trimmed.
\<close>

definition rx_fence :: rx where
  "rx_fence = Alt (Lit ([CHR 0x60, CHR 0x60, CHR 0x60] @ ''hcl'')) (Lit [CHR 0x60, CHR 0x60, CHR 0x60])"

definition editTerraformCode ::
  "(string \<Rightarrow> string \<Rightarrow> failure + string) \<Rightarrow> string \<Rightarrow> string \<Rightarrow> failure + string" where
  "editTerraformCode gemini originalCode userInstruction =
     (case gemini originalCode userInstruction of
        Inl err \<Rightarrow> Inl err
      | Inr answer \<Rightarrow> Inr (trim (replaceAll (plain rx_fence) (\<lambda>w g. []) answer)))"

text \<open>The handler of \<^verbatim>\<open>POST /edit\<close>.\<close>

definition edit ::
  "(string \<Rightarrow> string \<Rightarrow> failure + string) \<Rightarrow> string \<Rightarrow> server \<Rightarrow> response \<times> server" where
  "edit gemini instruction sv =
     (case editTerraformCode gemini (lastGeneratedCode sv) instruction of
        Inl err \<Rightarrow> (Response 500 ''Failed to edit code'', sv)
      | Inr updatedCode \<Rightarrow>
          (let sv1 = sv\<lparr>lastGeneratedCode := updatedCode\<rparr>
           in if lastTfFilePath sv1 \<noteq> []
              then (case writeFileSync sv1 (lastTfFilePath sv1) updatedCode of
                      Inl err \<Rightarrow> (Response 500 ''Failed to edit code'', sv1)
                    | Inr sv2 \<Rightarrow> (Response 200 updatedCode, sv2))
              else (Response 200 updatedCode, sv1)))"

section \<open>Notions for the properties\<close>

abbreviation nl :: char where
  "nl \<equiv> CHR ''\<newline>''"

text \<open>
  The texts a pattern can match, without regard to the order in which the matcher
  tries them and to the anchors: every match found by \<open>ms\<close> is one of them.
\<close>

primrec denote :: "rx \<Rightarrow> string \<Rightarrow> bool" where
  "denote (Lit w) x = (x = w)"
| "denote (Cls P) x = (case x of [c] \<Rightarrow> P c | _ \<Rightarrow> False)"
| "denote (Seq a b) x = (\<exists>u v. x = u @ v \<and> denote a u \<and> denote b v)"
| "denote (Alt a b) x = (denote a x \<or> denote b x)"
| "denote (Star a) x = (\<exists>us. x = concat us \<and> list_all (denote a) us)"
| "denote (Lazy a) x = (\<exists>us. x = concat us \<and> list_all (denote a) us)"
| "denote (Opt a) x = (x = [] \<or> denote a x)"
| "denote Bol x = (x = [])"
| "denote Eol x = (x = [])"

text \<open>Syntactic checks on a pattern: every match holds the text \<open>l\<close>; every match is
  non-empty and ends with the character \<open>c\<close>; the pattern has no \<^verbatim>\<open>$\<close>.\<close>

primrec requires :: "string \<Rightarrow> rx \<Rightarrow> bool" where
  "requires l (Lit w) = sublist l w"
| "requires l (Cls P) = False"
| "requires l (Seq a b) = (requires l a \<or> requires l b)"
| "requires l (Alt a b) = (requires l a \<and> requires l b)"
| "requires l (Star a) = False"
| "requires l (Lazy a) = False"
| "requires l (Opt a) = False"
| "requires l Bol = False"
| "requires l Eol = False"

primrec ends_with :: "char \<Rightarrow> rx \<Rightarrow> bool" where
  "ends_with c (Lit w) = (w \<noteq> [] \<and> last w = c)"
| "ends_with c (Cls P) = False"
| "ends_with c (Seq a b) = ends_with c b"
| "ends_with c (Alt a b) = (ends_with c a \<and> ends_with c b)"
| "ends_with c (Star a) = False"
| "ends_with c (Lazy a) = False"
| "ends_with c (Opt a) = False"
| "ends_with c Bol = False"
| "ends_with c Eol = False"

primrec eol_free :: "rx \<Rightarrow> bool" where
  "eol_free (Lit w) = True"
| "eol_free (Cls P) = True"
| "eol_free (Seq a b) = (eol_free a \<and> eol_free b)"
| "eol_free (Alt a b) = (eol_free a \<and> eol_free b)"
| "eol_free (Star a) = eol_free a"
| "eol_free (Lazy a) = eol_free a"
| "eol_free (Opt a) = eol_free a"
| "eol_free Bol = True"
| "eol_free Eol = False"

text \<open>A position of the text \<open>s @ t\<close> that lies in \<open>s\<close>, and a position of \<open>s\<close> read as
  a position of \<open>s @ t\<close>.\<close>

definition before_tail :: "string \<Rightarrow> pos \<Rightarrow> bool" where
  "before_tail t q \<longleftrightarrow> length t \<le> length (snd q)"

definition ext :: "string \<Rightarrow> pos \<Rightarrow> pos" where
  "ext t q = (fst q, snd q @ t)"

text \<open>
  The collapse of empty lines as a recursion over the text: a line break followed by
  white space that holds another line break becomes two line breaks, and the scan
  goes on behind the white space. \<open>collapse_col\<close> below proves it equal to
  \<open>collapseEmptyLines\<close>.
\<close>

function col :: "string \<Rightarrow> string" where
  "col [] = []"
| "col (c # cs) =
     (if c = nl \<and> nl \<in> set (takeWhile isWhiteSpace cs)
      then nl # nl # col (dropWhile isWhiteSpace cs)
      else c # col cs)"
  by pat_completeness auto
termination
  by (relation "measure length") (auto simp: less_Suc_eq_le length_dropWhile_le)





text \<open>
  The head of a declaration, \<^verbatim>\<open>WORD "KIND" "NAME" {\<close> with the white space the
  patterns allow, as a list of patterns and as a property of a text; and a text that
  is such a head followed by a body without a closing brace and by one closing brace.
\<close>

definition header :: "string \<Rightarrow> string \<Rightarrow> string \<Rightarrow> bool" where
  \<open>header word kind h \<longleftrightarrow>
     (\<exists>w1 w2 name w3.
        h = word @ w1 @ ''"'' @ kind @ ''"'' @ w2 @ ''"'' @ name @ ''"'' @ w3 @ ''{'' \<and>
        w1 \<noteq> [] \<and> list_all isWhiteSpace w1 \<and> w2 \<noteq> [] \<and> list_all isWhiteSpace w2 \<and>
        name \<noteq> [] \<and> CHR 0x22 \<notin> set name \<and> list_all isWhiteSpace w3)\<close>

definition header_rx :: "string \<Rightarrow> string \<Rightarrow> rx list" where
  \<open>header_rx word kind =
     [Lit word, Plus ws, Lit (''"'' @ kind @ ''"''), Plus ws,
      Lit ''"'', Plus (no ''"''), Lit ''"'', Star ws, Lit ''{'']\<close>

definition runsToFirstBrace :: "string \<Rightarrow> string \<Rightarrow> string \<Rightarrow> bool" where
  \<open>runsToFirstBrace word kind w \<longleftrightarrow>
     (\<exists>h body. w = h @ body @ ''}'' \<and> header word kind h \<and> CHR ''}'' \<notin> set body)\<close>

text \<open>Braces that are balanced, counted as characters: \<open>d\<close> braces are open at the
  start of the text.\<close>

primrec balanced :: "nat \<Rightarrow> string \<Rightarrow> bool" where
  "balanced d [] = (d = 0)"
| "balanced d (c # cs) =
     (if c = CHR ''{'' then balanced (Suc d) cs
      else if c = CHR ''}'' then 0 < d \<and> balanced (d - 1) cs
      else balanced d cs)"

text \<open>
  A block of a function in which the rewrite for Amazon finds its inline source and
  its handler and nothing to strip, and the same for Google: \<^verbatim>\<open>source_archive_url\<close>
  with a quoted value and none of the four source attributes, and the entry point.
\<close>

definition settledLambda :: "string \<Rightarrow> bool" where
  \<open>settledLambda b \<longleftrightarrow>
     test (plain rx_source_code) b \<and> test (plain (rx_quoted_attribute ''handler'')) b \<and>
     \<not> sublist ''filename'' b \<and> \<not> sublist ''inline_code'' b\<close>

definition quotedArchiveUrl :: "string \<Rightarrow> bool" where
  \<open>quotedArchiveUrl b \<longleftrightarrow>
     test (plain (rx_quoted_attribute ''source_archive_url'')) b \<and>
     \<not> sublist ''source_repository'' b \<and> \<not> sublist ''build_environment_variables'' b \<and>
     \<not> sublist ''source_archive_bucket'' b \<and> \<not> sublist ''source_archive_object'' b\<close>

definition settledGcp :: "string \<Rightarrow> bool" where
  \<open>settledGcp b \<longleftrightarrow> quotedArchiveUrl b \<and> test (plain (rx_quoted_attribute ''entry_point'')) b\<close>

text \<open>The first match of a pattern at the text \<open>s\<close> ends where \<open>t\<close> starts, whatever
  stands before \<open>s\<close>.\<close>

definition firstm :: "rx \<Rightarrow> string \<Rightarrow> string \<Rightarrow> bool" where
  "firstm r s t \<longleftrightarrow> (\<forall>b. \<exists>b' qs. ms r (b, s) = (b', t) # qs)"

text \<open>A value that the upload handler accepts as the name of a provider, and a
  value on which the call of \<^verbatim>\<open>toLowerCase\<close> throws: it is truthy and not a
  string.\<close>

definition accepted :: "jsValue \<Rightarrow> bool" where
  "accepted v = (case v of JSString s \<Rightarrow> toLowerCase s \<in> set supportedProviders | _ \<Rightarrow> False)"

definition notAString :: "jsValue \<Rightarrow> bool" where
  "notAString v = (truthy v \<and> (case v of JSString s \<Rightarrow> False | _ \<Rightarrow> True))"

section \<open>Inputs of the examples\<close>

definition server0 :: server where
  "server0 =
     \<lparr>lastGeneratedCode = ''old'', lastTfFilePath = ''generated_0/generated_0.tf'',
      files = [''generated_0/generated_0.tf'' \<mapsto> ''old''], locked = []\<rparr>"

definition azure_example :: string where
  \<open>azure_example =
     ''resource "azurerm_function_app" "f" {\<newline>  name = "f"\<newline>  app_settings = {\<newline>    FOO = "bar"\<newline>  }\<newline>}\<newline>''\<close>



definition unterminated_tail :: string where
  \<open>unterminated_tail = ''resource "local_file" "a" {\<newline>  content = "x"\<newline>''\<close>

definition unterminated_then_lambda :: string where
  \<open>unterminated_then_lambda =
     unterminated_tail @
     ''\<newline>resource "aws_lambda_function" "f" {\<newline>  filename = "z"\<newline>}\<newline>''\<close>

definition nested_lambda :: string where
  \<open>nested_lambda =
     ''resource "aws_lambda_function" "f" {\<newline>  handler = "h.x"\<newline>  runtime = "go1.x"\<newline>  environment {\<newline>    variables = { A = "b" }\<newline>  }\<newline>  source_code = "abc"\<newline>}\<newline>''\<close>

definition nested_lambda_block :: string where
  \<open>nested_lambda_block =
     ''resource "aws_lambda_function" "f" {\<newline>  handler = "h.x"\<newline>  runtime = "go1.x"\<newline>  environment {\<newline>    variables = { A = "b" }''\<close>

definition brace_in_string :: string where
  \<open>brace_in_string = ''resource "local_file" "a" {\<newline>  content = "}"\<newline>}\<newline>''\<close>

definition inline_lambda :: string where
  \<open>inline_lambda =
     ''resource "aws_lambda_function" "f" {\<newline>  handler = "h.x"\<newline>  source_code = "abc"\<newline>}''\<close>

definition url_function :: string where
  \<open>url_function =
     ''resource "google_cloud_function" "g" {\<newline>  source_archive_url = "gs://a/b.zip"\<newline>  entry_point = "go"\<newline>}''\<close>

definition scenario_local :: string where
  \<open>scenario_local =
     ''resource "local_file" "src" {\<newline>  content  = "x"\<newline>  filename = "lambda.py"\<newline>}''\<close>

definition scenario_archive :: string where
  \<open>scenario_archive =
     ''data "archive_file" "zip" {\<newline>  type        = "zip"\<newline>  source_file = "lambda.py"\<newline>  output_path = "lambda.zip"\<newline>}''\<close>





definition joined_declaration :: string where
  \<open>joined_declaration = ''resource "local_file" data "archive_file" "z" {} "a" {}''\<close>


section \<open>The matcher\<close>

subsection \<open>Every match is a text of the pattern\<close>

lemma star_iter_sound:
  assumes f: "\<And>p q. q \<in> set (f p) \<Longrightarrow> \<exists>w. snd p = w @ snd q \<and> D w"
  shows "q \<in> set (star_iter f n p) \<Longrightarrow> \<exists>us. snd p = concat us @ snd q \<and> list_all D us"
proof (induction n arbitrary: p)
  case 0
  then show ?case by (intro exI [of _ "[]"]) simp
next
  case (Suc n)
  from Suc.prems consider "q = p"
    | m where "m \<in> set (f p)" "length (snd m) < length (snd p)" "q \<in> set (star_iter f n m)"
    by (auto split: if_splits)
  then show ?case
  proof cases
    case 1
    then show ?thesis by (intro exI [of _ "[]"]) simp
  next
    case 2
    from f [OF 2(1)] obtain w where w: "snd p = w @ snd m" "D w" by blast
    from Suc.IH [OF 2(3)] obtain us where us: "snd m = concat us @ snd q" "list_all D us" by blast
    have "snd p = concat (w # us) @ snd q" using w us by simp
    moreover have "list_all D (w # us)" using w us by simp
    ultimately show ?thesis by blast
  qed
qed

lemma lazy_iter_sound:
  assumes f: "\<And>p q. q \<in> set (f p) \<Longrightarrow> \<exists>w. snd p = w @ snd q \<and> D w"
  shows "q \<in> set (lazy_iter f n p) \<Longrightarrow> \<exists>us. snd p = concat us @ snd q \<and> list_all D us"
proof (induction n arbitrary: p)
  case 0
  then show ?case by (intro exI [of _ "[]"]) simp
next
  case (Suc n)
  from Suc.prems consider "q = p"
    | m where "m \<in> set (f p)" "length (snd m) < length (snd p)" "q \<in> set (lazy_iter f n m)"
    by (auto split: if_splits)
  then show ?case
  proof cases
    case 1
    then show ?thesis by (intro exI [of _ "[]"]) simp
  next
    case 2
    from f [OF 2(1)] obtain w where w: "snd p = w @ snd m" "D w" by blast
    from Suc.IH [OF 2(3)] obtain us where us: "snd m = concat us @ snd q" "list_all D us" by blast
    have "snd p = concat (w # us) @ snd q" using w us by simp
    moreover have "list_all D (w # us)" using w us by simp
    ultimately show ?thesis by blast
  qed
qed

lemma ms_sound: "q \<in> set (ms r p) \<Longrightarrow> \<exists>w. snd p = w @ snd q \<and> denote r w"
proof (induction r arbitrary: p q)
  case (Lit w)
  then show ?case by (auto simp: prefix_def split: if_splits)
next
  case (Cls P)
  then show ?case by (cases "snd p") (auto split: if_splits)
next
  case (Seq r1 r2)
  from Seq.prems obtain m where m: "m \<in> set (ms r1 p)" "q \<in> set (ms r2 m)" by auto
  from Seq.IH(1) [OF m(1)] obtain u where u: "snd p = u @ snd m" "denote r1 u" by blast
  from Seq.IH(2) [OF m(2)] obtain v where v: "snd m = v @ snd q" "denote r2 v" by blast
  have "snd p = (u @ v) @ snd q" using u v by simp
  then show ?case using u v by (metis denote.simps(3))
next
  case (Alt r1 r2)
  then show ?case by (metis Un_iff denote.simps(4) ms.simps(4) set_append)
next
  case (Star r)
  from Star.prems have "q \<in> set (star_iter (ms r) (length (snd p)) p)" by simp
  from star_iter_sound [where D = "denote r", OF Star.IH this]
  show ?case by auto
next
  case (Lazy r)
  from Lazy.prems have "q \<in> set (lazy_iter (ms r) (length (snd p)) p)" by simp
  from lazy_iter_sound [where D = "denote r", OF Lazy.IH this]
  show ?case by auto
next
  case (Opt r)
  from Opt.prems have "q = p \<or> q \<in> set (ms r p)" by auto
  then show ?case
  proof
    assume "q = p"
    then show ?thesis by simp
  next
    assume "q \<in> set (ms r p)"
    from Opt.IH [OF this] show ?thesis by auto
  qed
next
  case Bol
  then show ?case by (auto split: if_splits)
next
  case Eol
  then show ?case by (cases "snd p") (auto split: if_splits)
qed

subsection \<open>The bound on the iterations, and the patterns as recursions over the text\<close>

lemma ms_length: "q \<in> set (ms r p) \<Longrightarrow> length (snd q) \<le> length (snd p)"
  using ms_sound [of q r p] by auto

lemma star_iter_fuel:
  assumes f: "\<And>p q. q \<in> set (f p) \<Longrightarrow> length (snd q) \<le> length (snd p)"
  shows "length (snd p) \<le> n \<Longrightarrow> length (snd p) \<le> k \<Longrightarrow> star_iter f n p = star_iter f k p"
proof (induction n arbitrary: k p)
  case 0
  then have e: "length (snd p) = 0" by simp
  show ?case
  proof (cases k)
    case 0
    then show ?thesis by simp
  next
    case (Suc j)
    have "map (\<lambda>q. if length (snd q) < length (snd p) then star_iter f j q else []) (f p) =
          map (\<lambda>q. []) (f p)" using e by simp
    then show ?thesis using Suc by simp
  qed
next
  case step: (Suc n)
  show ?case
  proof (cases k)
    case 0
    with step.prems have e: "length (snd p) = 0" by simp
    have "map (\<lambda>q. if length (snd q) < length (snd p) then star_iter f n q else []) (f p) =
          map (\<lambda>q. []) (f p)" using e by simp
    then show ?thesis using 0 by simp
  next
    case (Suc j)
    have eq: "map (\<lambda>q. if length (snd q) < length (snd p) then star_iter f n q else []) (f p) =
          map (\<lambda>q. if length (snd q) < length (snd p) then star_iter f j q else []) (f p)"
    proof (rule map_cong [OF refl])
      fix q assume "q \<in> set (f p)"
      show "(if length (snd q) < length (snd p) then star_iter f n q else []) =
            (if length (snd q) < length (snd p) then star_iter f j q else [])"
      proof (cases "length (snd q) < length (snd p)")
        case True
        with step.prems Suc have "length (snd q) \<le> n" "length (snd q) \<le> j" by simp_all
        then have "star_iter f n q = star_iter f j q" by (rule step.IH)
        then show ?thesis by simp
      next
        case False
        then show ?thesis by simp
      qed
    qed
    show ?thesis by (simp only: Suc star_iter.simps eq)
  qed
qed

lemma lazy_iter_fuel:
  assumes f: "\<And>p q. q \<in> set (f p) \<Longrightarrow> length (snd q) \<le> length (snd p)"
  shows "length (snd p) \<le> n \<Longrightarrow> length (snd p) \<le> k \<Longrightarrow> lazy_iter f n p = lazy_iter f k p"
proof (induction n arbitrary: k p)
  case 0
  then have e: "length (snd p) = 0" by simp
  show ?case
  proof (cases k)
    case 0
    then show ?thesis by simp
  next
    case (Suc j)
    have "map (\<lambda>q. if length (snd q) < length (snd p) then lazy_iter f j q else []) (f p) =
          map (\<lambda>q. []) (f p)" using e by simp
    then show ?thesis using Suc by simp
  qed
next
  case step: (Suc n)
  show ?case
  proof (cases k)
    case 0
    with step.prems have e: "length (snd p) = 0" by simp
    have "map (\<lambda>q. if length (snd q) < length (snd p) then lazy_iter f n q else []) (f p) =
          map (\<lambda>q. []) (f p)" using e by simp
    then show ?thesis using 0 by simp
  next
    case (Suc j)
    have eq: "map (\<lambda>q. if length (snd q) < length (snd p) then lazy_iter f n q else []) (f p) =
          map (\<lambda>q. if length (snd q) < length (snd p) then lazy_iter f j q else []) (f p)"
    proof (rule map_cong [OF refl])
      fix q assume "q \<in> set (f p)"
      show "(if length (snd q) < length (snd p) then lazy_iter f n q else []) =
            (if length (snd q) < length (snd p) then lazy_iter f j q else [])"
      proof (cases "length (snd q) < length (snd p)")
        case True
        with step.prems Suc have "length (snd q) \<le> n" "length (snd q) \<le> j" by simp_all
        then have "lazy_iter f n q = lazy_iter f j q" by (rule step.IH)
        then show ?thesis by simp
      next
        case False
        then show ?thesis by simp
      qed
    qed
    show ?thesis by (simp only: Suc lazy_iter.simps eq)
  qed
qed

lemma star_cls_Nil: "ms (Star (Cls P)) (b, []) = [(b, [])]"
  by simp

lemma star_cls_Cons:
  "ms (Star (Cls P)) (b, c # cs) =
     (if P c then ms (Star (Cls P)) (isLineTerminator c, cs) else []) @ [(b, c # cs)]"
proof -
  have "star_iter (ms (Cls P)) (length cs) (isLineTerminator c, cs) =
        star_iter (ms (Cls P)) (length (snd (isLineTerminator c, cs))) (isLineTerminator c, cs)"
    by simp
  then show ?thesis by simp
qed

lemma lazy_cls_Nil: "ms (Lazy (Cls P)) (b, []) = [(b, [])]"
  by simp

lemma lazy_cls_Cons:
  "ms (Lazy (Cls P)) (b, c # cs) =
     (b, c # cs) # (if P c then ms (Lazy (Cls P)) (isLineTerminator c, cs) else [])"
  by simp


lemma seq_lazy_cls_Cons:
  "ms (Seq (Lazy (Cls P)) r) (b, c # cs) =
     ms r (b, c # cs) @ (if P c then ms (Seq (Lazy (Cls P)) r) (isLineTerminator c, cs) else [])"
  by (simp only: ms.simps(3) lazy_cls_Cons) simp


lemma concat_map_concat_map:
  "concat (map g (concat (map h xs))) = concat (map (\<lambda>x. concat (map g (h x))) xs)"
  by (induction xs) simp_all

lemma ms_Seq_fun: "ms (Seq b c) = (\<lambda>x. concat (map (ms c) (ms b x)))"
  by (rule ext) simp

lemma seq_assoc: "ms (Seq (Seq a b) c) p = ms (Seq a (Seq b c)) p"
  by (simp add: concat_map_concat_map ms_Seq_fun)

subsection \<open>The pattern of the empty lines\<close>

lemma ws_nl [simp]: "isWhiteSpace nl"
  by (simp add: isWhiteSpace_def)

lemma ms_cong_Seq: "ms r = ms r' \<Longrightarrow> ms (Seq a r) = ms (Seq a r')"
  by (simp add: ms_Seq_fun)

lemma seq_assoc_fun: "ms (Seq (Seq a b) c) = ms (Seq a (Seq b c))"
  by (rule ext) (rule seq_assoc)











subsection \<open>The collapse of empty lines\<close>

lemma scan_bol_irrelevant:
  assumes "\<And>b b' t. m (b, t) = m (b', t)"
  shows "scan m k b s = scan m k b' s"
proof (induction s arbitrary: k b b')
  case Nil
  show ?case using assms [of b "[]" b'] by simp
next
  case (Cons c cs)
  show ?case using assms [of b "c # cs" b'] by simp
qed

lemma scan_skip:
  assumes "\<And>b b' t. m (b, t) = m (b', t)"
  shows "k \<le> length s \<Longrightarrow> scan m k b s = scan m 0 b' (drop k s)"
proof (induction s arbitrary: k b)
  case Nil
  then show ?case using assms [of b "[]" b'] by simp
next
  case (Cons c cs)
  show ?case
  proof (cases k)
    case 0
    then show ?thesis using scan_bol_irrelevant [of m, OF assms, of 0 b "c # cs" b'] by simp
  next
    case (Suc j)
    with Cons.prems have "j \<le> length cs" by simp
    from Cons.IH [OF this] show ?thesis using Suc by simp
  qed
qed





lemma col_head: "\<not> isWhiteSpace c \<Longrightarrow> col (c # cs) = c # col cs"
  by auto






















subsection \<open>Texts that a pattern cannot match\<close>

lemma requires_denote: "requires l r \<Longrightarrow> denote r w \<Longrightarrow> sublist l w"
proof (induction r arbitrary: w)
  case (Seq a b)
  from Seq.prems(2) obtain u v where uv: "w = u @ v" "denote a u" "denote b v" by auto
  from Seq.prems(1) have "requires l a \<or> requires l b" by simp
  then show ?case
  proof
    assume "requires l a"
    from Seq.IH(1) [OF this uv(2)] show ?thesis using uv(1) by (auto simp: sublist_append)
  next
    assume "requires l b"
    from Seq.IH(2) [OF this uv(3)] show ?thesis using uv(1) by (auto simp: sublist_append)
  qed
qed auto

lemma ends_with_denote: "ends_with c r \<Longrightarrow> denote r w \<Longrightarrow> w \<noteq> [] \<and> last w = c"
proof (induction r arbitrary: w)
  case (Seq a b)
  from Seq.prems(2) obtain u v where uv: "w = u @ v" "denote a u" "denote b v" by auto
  from Seq.prems(1) have "ends_with c b" by simp
  from Seq.IH(2) [OF this uv(3)] show ?case using uv(1) by simp
qed auto

lemma requires_no_match:
  assumes "requires l r" and "\<not> sublist l s" and "suffix t s"
  shows "ms r (b, t) = []"
proof (rule ccontr)
  assume "ms r (b, t) \<noteq> []"
  then obtain q where "q \<in> set (ms r (b, t))" by (cases "ms r (b, t)") auto
  from ms_sound [OF this] obtain w where w: "t = w @ snd q" "denote r w" by auto
  from requires_denote [OF assms(1) w(2)] have "sublist l w" .
  then have "sublist l t" using w(1) by (auto simp: sublist_append)
  then have "sublist l s" using assms(3) by (metis sublist_order.order_trans suffix_imp_sublist)
  with assms(2) show False by simp
qed

lemma scan_no_match:
  assumes "\<And>b t. suffix t s \<Longrightarrow> m (b, t) = None"
  shows "scan m 0 b s = map Gap s"
  using assms
proof (induction s arbitrary: b)
  case Nil
  then show ?case by simp
next
  case (Cons c cs)
  have "m (b, c # cs) = None" using Cons.prems by simp
  moreover have "scan m 0 (isLineTerminator c) cs = map Gap cs"
    using Cons.prems by (intro Cons.IH) (simp add: suffix_Cons)
  ultimately show ?case by simp
qed

lemma replaceAll_no_match:
  assumes "\<And>b t. suffix t s \<Longrightarrow> m (b, t) = None"
  shows "replaceAll m f s = s"
proof -
  have "concat (map (\<lambda>x. case x of Gap c \<Rightarrow> [c] | Hit w g \<Rightarrow> f w g) (map Gap s)) = s"
    by (induction s) simp_all
  then show ?thesis using scan_no_match [of s m True, OF assms]
    by (simp add: replaceAll_def segments_def)
qed

lemma search_no_match:
  assumes "\<And>b t. suffix t s \<Longrightarrow> m (b, t) = None"
  shows "search m i b s = None"
  using assms
proof (induction s arbitrary: i b)
  case Nil
  then show ?case by simp
next
  case (Cons c cs)
  have "m (b, c # cs) = None" using Cons.prems by simp
  moreover have "search m (Suc i) (isLineTerminator c) cs = None"
    using Cons.prems by (intro Cons.IH) (simp add: suffix_Cons)
  ultimately show ?case by simp
qed

lemma replaceAll_requires:
  assumes "requires l r" and "\<not> sublist l s"
  shows "replaceAll (plain r) f s = s"
proof (rule replaceAll_no_match)
  fix b t assume "suffix t s"
  from requires_no_match [OF assms this] show "plain r (b, t) = None" by (simp add: plain_def)
qed




lemma test_requires:
  assumes "requires l r" and "\<not> sublist l s"
  shows "\<not> test (plain r) s"
proof -
  have "search (plain r) 0 True s = None"
  proof (rule search_no_match)
    fix b t assume "suffix t s"
    from requires_no_match [OF assms this] show "plain r (b, t) = None" by (simp add: plain_def)
  qed
  then show ?thesis by (simp add: test_def match_def)
qed

subsection \<open>A text behind the last place where a pattern can end\<close>

lemma concat_map_filter:
  "(\<And>x. x \<in> set xs \<Longrightarrow> \<not> P x \<Longrightarrow> g x = []) \<Longrightarrow>
   concat (map g xs) = concat (map g (filter P xs))"
  by (induction xs) auto

lemma star_iter_length:
  assumes f: "\<And>p q. q \<in> set (f p) \<Longrightarrow> length (snd q) \<le> length (snd p)"
  shows "q \<in> set (star_iter f n p) \<Longrightarrow> length (snd q) \<le> length (snd p)"
proof (induction n arbitrary: p)
  case 0
  then show ?case by simp
next
  case (Suc n)
  from Suc.prems consider "q = p"
    | m where "m \<in> set (f p)" "length (snd m) < length (snd p)" "q \<in> set (star_iter f n m)"
    by (auto split: if_splits)
  then show ?case
  proof cases
    case 1
    then show ?thesis by simp
  next
    case 2
    from Suc.IH [OF 2(3)] 2(2) show ?thesis by simp
  qed
qed

lemma lazy_iter_length:
  assumes f: "\<And>p q. q \<in> set (f p) \<Longrightarrow> length (snd q) \<le> length (snd p)"
  shows "q \<in> set (lazy_iter f n p) \<Longrightarrow> length (snd q) \<le> length (snd p)"
proof (induction n arbitrary: p)
  case 0
  then show ?case by simp
next
  case (Suc n)
  from Suc.prems consider "q = p"
    | m where "m \<in> set (f p)" "length (snd m) < length (snd p)" "q \<in> set (lazy_iter f n m)"
    by (auto split: if_splits)
  then show ?case
  proof cases
    case 1
    then show ?thesis by simp
  next
    case 2
    from Suc.IH [OF 2(3)] 2(2) show ?thesis by simp
  qed
qed

lemma star_iter_local:
  assumes len: "\<And>p q. q \<in> set (f p) \<Longrightarrow> length (snd q) \<le> length (snd p)"
    and loc: "\<And>b s. filter (before_tail t) (f (b, s @ t)) = map (ext t) (f (b, s))"
  shows "filter (before_tail t) (star_iter f n (b, s @ t)) = map (ext t) (star_iter f n (b, s))"
proof (induction n arbitrary: b s)
  case 0
  show ?case by (simp add: before_tail_def ext_def)
next
  case (Suc n)
  define g where "g = (\<lambda>q. if length (snd q) < length (s @ t) then star_iter f n q else [])"
  define g0 where "g0 = (\<lambda>q. if length (snd q) < length s then star_iter f n q else [])"
  have out: "filter (before_tail t) (g q) = []" if "\<not> before_tail t q" for q
  proof -
    have "\<not> before_tail t x" if "x \<in> set (star_iter f n q)" for x
      using star_iter_length [of f x n q, OF len that] \<open>\<not> before_tail t q\<close> by (simp add: before_tail_def)
    then show ?thesis by (auto simp: g_def filter_empty_conv)
  qed
  have inn: "filter (before_tail t) (g (ext t q)) = map (ext t) (g0 q)" for q
    using Suc [of "fst q" "snd q"] by (simp add: g_def g0_def ext_def)
  have "filter (before_tail t) (concat (map g (f (b, s @ t)))) =
        concat (map (\<lambda>q. filter (before_tail t) (g q)) (f (b, s @ t)))"
    by (simp add: filter_concat comp_def)
  also have "\<dots> = concat (map (\<lambda>q. filter (before_tail t) (g q)) (filter (before_tail t) (f (b, s @ t))))"
    by (rule concat_map_filter) (rule out)
  also have "\<dots> = concat (map (\<lambda>q. map (ext t) (g0 q)) (f (b, s)))"
    by (simp add: loc comp_def inn)
  also have "\<dots> = map (ext t) (concat (map g0 (f (b, s))))"
    by (simp add: map_concat comp_def)
  finally have main: "filter (before_tail t) (concat (map g (f (b, s @ t)))) =
                map (ext t) (concat (map g0 (f (b, s))))" .
  have 1: "before_tail t (b, s @ t)" by (simp add: before_tail_def)
  have 2: "ext t (b, s) = (b, s @ t)" by (simp add: ext_def)
  have 3: "star_iter f (Suc n) (b, s @ t) = concat (map g (f (b, s @ t))) @ [(b, s @ t)]"
    by (simp add: g_def)
  have 4: "star_iter f (Suc n) (b, s) = concat (map g0 (f (b, s))) @ [(b, s)]"
    by (simp add: g0_def)
  show ?case unfolding 3 4 using main 1 2 by simp
qed

lemma lazy_iter_local:
  assumes len: "\<And>p q. q \<in> set (f p) \<Longrightarrow> length (snd q) \<le> length (snd p)"
    and loc: "\<And>b s. filter (before_tail t) (f (b, s @ t)) = map (ext t) (f (b, s))"
  shows "filter (before_tail t) (lazy_iter f n (b, s @ t)) = map (ext t) (lazy_iter f n (b, s))"
proof (induction n arbitrary: b s)
  case 0
  show ?case by (simp add: before_tail_def ext_def)
next
  case (Suc n)
  define g where "g = (\<lambda>q. if length (snd q) < length (s @ t) then lazy_iter f n q else [])"
  define g0 where "g0 = (\<lambda>q. if length (snd q) < length s then lazy_iter f n q else [])"
  have out: "filter (before_tail t) (g q) = []" if "\<not> before_tail t q" for q
  proof -
    have "\<not> before_tail t x" if "x \<in> set (lazy_iter f n q)" for x
      using lazy_iter_length [of f x n q, OF len that] \<open>\<not> before_tail t q\<close> by (simp add: before_tail_def)
    then show ?thesis by (auto simp: g_def filter_empty_conv)
  qed
  have inn: "filter (before_tail t) (g (ext t q)) = map (ext t) (g0 q)" for q
    using Suc [of "fst q" "snd q"] by (simp add: g_def g0_def ext_def)
  have "filter (before_tail t) (concat (map g (f (b, s @ t)))) =
        concat (map (\<lambda>q. filter (before_tail t) (g q)) (f (b, s @ t)))"
    by (simp add: filter_concat comp_def)
  also have "\<dots> = concat (map (\<lambda>q. filter (before_tail t) (g q)) (filter (before_tail t) (f (b, s @ t))))"
    by (rule concat_map_filter) (rule out)
  also have "\<dots> = concat (map (\<lambda>q. map (ext t) (g0 q)) (f (b, s)))"
    by (simp add: loc comp_def inn)
  also have "\<dots> = map (ext t) (concat (map g0 (f (b, s))))"
    by (simp add: map_concat comp_def)
  finally have main: "filter (before_tail t) (concat (map g (f (b, s @ t)))) =
                map (ext t) (concat (map g0 (f (b, s))))" .
  have 1: "before_tail t (b, s @ t)" by (simp add: before_tail_def)
  have 2: "ext t (b, s) = (b, s @ t)" by (simp add: ext_def)
  have 3: "lazy_iter f (Suc n) (b, s @ t) = (b, s @ t) # concat (map g (f (b, s @ t)))"
    by (simp add: g_def)
  have 4: "lazy_iter f (Suc n) (b, s) = (b, s) # concat (map g0 (f (b, s)))"
    by (simp add: g0_def)
  show ?case unfolding 3 4 using main 1 2 by simp
qed

lemma ms_local:
  "eol_free r \<Longrightarrow> filter (before_tail t) (ms r (b, s @ t)) = map (ext t) (ms r (b, s))"
proof (induction r arbitrary: b s)
  case (Lit w)
  show ?case
  proof (cases "prefix w s")
    case True
    then have "prefix w (s @ t)" by (simp add: prefix_append)
    moreover from True have l: "length w \<le> length s" by (rule prefix_length_le)
    moreover from l have "length t \<le> length s + length t - length w" by arith
    ultimately show ?thesis using True by (simp add: before_tail_def ext_def)
  next
    case False
    show ?thesis
    proof (cases "prefix w (s @ t)")
      case True
      with False obtain us where us: "w = s @ us" "us \<noteq> []" "prefix us t"
        by (auto simp: prefix_append)
      then have "0 < length us" "length us \<le> length t"
        by (simp_all add: prefix_length_le)
      then have "\<not> length t \<le> length t - length us" by arith
      then show ?thesis using True False us by (simp add: before_tail_def ext_def)
    next
      case F: False
      then show ?thesis using False by simp
    qed
  qed
next
  case (Cls P)
  show ?case
  proof (cases s)
    case Nil
    then show ?thesis by (cases t) (auto simp: before_tail_def ext_def)
  next
    case (Cons c cs)
    then show ?thesis by (simp add: before_tail_def ext_def)
  qed
next
  case (Seq r1 r2)
  then have e: "eol_free r1" "eol_free r2" by simp_all
  have out: "filter (before_tail t) (ms r2 q) = []" if "\<not> before_tail t q" for q
  proof -
    have "\<not> before_tail t x" if "x \<in> set (ms r2 q)" for x
      using ms_length [OF that] \<open>\<not> before_tail t q\<close> by (simp add: before_tail_def)
    then show ?thesis by (auto simp: filter_empty_conv)
  qed
  have inn: "filter (before_tail t) (ms r2 (ext t q)) = map (ext t) (ms r2 q)" for q
    using Seq.IH(2) [OF e(2), of "fst q" "snd q"] by (simp add: ext_def)
  have "filter (before_tail t) (ms (Seq r1 r2) (b, s @ t)) =
        concat (map (\<lambda>q. filter (before_tail t) (ms r2 q)) (ms r1 (b, s @ t)))"
    by (simp add: filter_concat comp_def)
  also have "\<dots> = concat (map (\<lambda>q. filter (before_tail t) (ms r2 q)) (filter (before_tail t) (ms r1 (b, s @ t))))"
    by (rule concat_map_filter) (rule out)
  also have "\<dots> = concat (map (\<lambda>q. map (ext t) (ms r2 q)) (ms r1 (b, s)))"
    by (simp add: Seq.IH(1) [OF e(1)] comp_def inn)
  also have "\<dots> = map (ext t) (ms (Seq r1 r2) (b, s))"
    by (simp add: map_concat comp_def)
  finally show ?case .
next
  case (Alt r1 r2)
  then show ?case by simp
next
  case (Star r)
  then have e: "eol_free r" by simp
  have fuel: "star_iter (ms r) (length (s @ t)) (b, s) = star_iter (ms r) (length s) (b, s)"
    by (rule star_iter_fuel) (auto dest: ms_length)
  have "filter (before_tail t) (star_iter (ms r) (length (s @ t)) (b, s @ t)) =
        map (ext t) (star_iter (ms r) (length (s @ t)) (b, s))"
    by (rule star_iter_local) (auto dest: ms_length simp: Star.IH [OF e])
  then show ?case using fuel by simp
next
  case (Lazy r)
  then have e: "eol_free r" by simp
  have fuel: "lazy_iter (ms r) (length (s @ t)) (b, s) = lazy_iter (ms r) (length s) (b, s)"
    by (rule lazy_iter_fuel) (auto dest: ms_length)
  have "filter (before_tail t) (lazy_iter (ms r) (length (s @ t)) (b, s @ t)) =
        map (ext t) (lazy_iter (ms r) (length (s @ t)) (b, s))"
    by (rule lazy_iter_local) (auto dest: ms_length simp: Lazy.IH [OF e])
  then show ?case using fuel by simp
next
  case (Opt r)
  then have e: "eol_free r" by simp
  have "filter (before_tail t) (filter (\<lambda>q. length (snd q) < length (s @ t)) (ms r (b, s @ t))) =
        filter (\<lambda>q. length (snd q) < length (s @ t)) (filter (before_tail t) (ms r (b, s @ t)))"
    by (simp add: conj_commute)
  also have "\<dots> = map (ext t) (filter (\<lambda>q. length (snd q) < length s) (ms r (b, s)))"
    by (simp add: Opt.IH [OF e] filter_map comp_def ext_def)
  finally show ?case by (simp add: before_tail_def ext_def)
next
  case Bol
  show ?case by (simp add: before_tail_def ext_def)
next
  case Eol
  then show ?case by simp
qed

lemma ms_ends_within:
  assumes "ends_with c r" and "c \<notin> set t" and "q \<in> set (ms r (b, s @ t))"
  shows "before_tail t q"
proof (rule ccontr)
  assume "\<not> before_tail t q"
  then have short: "length (snd q) < length t" by (simp add: before_tail_def)
  from ms_sound [OF assms(3)] obtain w where w: "s @ t = w @ snd q" "denote r w" by auto
  from ends_with_denote [OF assms(1) w(2)] have e: "w \<noteq> []" "last w = c" by simp_all
  from w(1) consider u where "w = s @ u" "t = u @ snd q" | u where "s = w @ u" "u @ t = snd q"
    by (auto simp: append_eq_append_conv2)
  then obtain u where u: "w = s @ u" "u \<noteq> []" "t = u @ snd q"
  proof cases
    case 1
    with short have "u \<noteq> []" by auto
    with 1 that show ?thesis by blast
  next
    case 2
    then have "length t \<le> length (snd q)" by (metis length_append le_add2)
    with short show ?thesis by simp
  qed
  then have "last w = last u" by simp
  moreover have "last u \<in> set t" using u by simp
  ultimately show False using e assms(2) by simp
qed

lemma plain_local:
  assumes "eol_free r" and "ends_with c r" and "c \<notin> set t"
  shows "plain r (b, s @ t) = plain r (b, s)"
proof -
  have "filter (before_tail t) (ms r (b, s @ t)) = ms r (b, s @ t)"
    using ms_ends_within [OF assms(2,3)] by (simp add: filter_id_conv)
  then have eq: "ms r (b, s @ t) = map (ext t) (ms r (b, s))"
    using ms_local [OF assms(1), of t b s] by simp
  show ?thesis
  proof (cases "ms r (b, s)")
    case Nil
    then show ?thesis using eq by (simp add: plain_def)
  next
    case (Cons q qs)
    then have "q \<in> set (ms r (b, s))" by simp
    from ms_length [OF this] have "length (snd q) \<le> length s" by simp
    then show ?thesis using eq Cons by (simp add: plain_def ext_def)
  qed
qed

lemma plain_none_tail:
  assumes "ends_with c r" and "c \<notin> set t" and "suffix u t"
  shows "plain r (b, u) = None"
proof -
  have "ms r (b, u) = []"
  proof (rule ccontr)
    assume "ms r (b, u) \<noteq> []"
    then obtain q where "q \<in> set (ms r (b, u))" by (cases "ms r (b, u)") auto
    from ms_sound [OF this] obtain w where w: "u = w @ snd q" "denote r w" by auto
    from ends_with_denote [OF assms(1) w(2)] have "w \<noteq> []" "last w = c" by simp_all
    then have "c \<in> set u" using w(1) by (metis last_in_set Un_iff set_append)
    then have "c \<in> set t" using assms(3) by (auto simp: suffix_def)
    with assms(2) show False by simp
  qed
  then show ?thesis by (simp add: plain_def)
qed

lemma plain_bound: "plain r (b, u) = Some (n, g) \<Longrightarrow> n \<le> length u"
  by (auto simp: plain_def split: list.splits)

lemma scan_append:
  assumes loc: "\<And>b u. m (b, u @ t) = m (b, u)"
    and bound: "\<And>b u n g. m (b, u) = Some (n, g) \<Longrightarrow> n \<le> length u"
    and none: "\<And>b u. suffix u t \<Longrightarrow> m (b, u) = None"
  shows "k \<le> length s \<Longrightarrow> scan m k b (s @ t) = scan m k b s @ map Gap t"
proof (induction s arbitrary: k b)
  case Nil
  have "m (b, []) = None" using none [of "[]" b] by simp
  then show ?case using Nil scan_no_match [of t m b, OF none] by simp
next
  case (Cons c cs)
  show ?case
  proof (cases "0 < k")
    case True
    with Cons.prems have "k - 1 \<le> length cs" by simp
    from Cons.IH [OF this] show ?thesis using True by simp
  next
    case False
    then have k: "k = 0" by simp
    have m: "m (b, (c # cs) @ t) = m (b, c # cs)" by (rule loc)
    show ?thesis
    proof (cases "m (b, c # cs)")
      case None
      then show ?thesis using k m Cons.IH [of 0 "isLineTerminator c"] by simp
    next
      case (Some a)
      obtain n g where a: "a = (n, g)" by (cases a)
      from bound [of b "c # cs" n g] Some a have n: "n \<le> Suc (length cs)" by simp
      show ?thesis
      proof (cases "n = 0")
        case True
        then show ?thesis using k m Some a Cons.IH [of 0 "isLineTerminator c"] by simp
      next
        case F: False
        with n have "n - 1 \<le> length cs" by simp
        moreover have "take n ((c # cs) @ t) = take n (c # cs)"
          using n by (simp only: take_append) simp
        ultimately show ?thesis
          using Cons.IH [of "n - 1" "isLineTerminator c"] k m Some a F by simp
      qed
    qed
  qed
qed

lemma replaceAll_append:
  assumes "eol_free r" and "ends_with c r" and "c \<notin> set t"
  shows "replaceAll (plain r) f (s @ t) = replaceAll (plain r) f s @ t"
proof -
  have "scan (plain r) 0 True (s @ t) = scan (plain r) 0 True s @ map Gap t"
  proof (rule scan_append)
    show "plain r (b, u @ t) = plain r (b, u)" for b u
      using assms by (rule plain_local)
    show "n \<le> length u" if "plain r (b, u) = Some (n, g)" for b u n g
      using that by (rule plain_bound)
    show "plain r (b, u) = None" if "suffix u t" for b u
      using assms(2,3) that by (rule plain_none_tail)
  qed simp
  moreover have "concat (map (\<lambda>x. case x of Gap c \<Rightarrow> [c] | Hit w g \<Rightarrow> f w g) (map Gap t)) = t"
    by (induction t) simp_all
  ultimately show ?thesis by (simp add: replaceAll_def segments_def)
qed

lemmas rx_defs = rx_local_file_def rx_archive_file_def rx_resource_def Plus_def ws_def no_def
  anything_def dot_def

lemma block_stages_append:
  assumes "CHR ''}'' \<notin> set tail"
  shows "removeLocalFiles (s @ tail) = removeLocalFiles s @ tail \<and>
         removeArchiveFiles (s @ tail) = removeArchiveFiles s @ tail \<and>
         providerCleanups cloudProvider (s @ tail) = providerCleanups cloudProvider s @ tail"
proof -
  have 1: "eol_free rx_local_file" "ends_with (CHR ''}'') rx_local_file"
    by (simp_all add: rx_defs)
  have 2: "eol_free rx_archive_file" "ends_with (CHR ''}'') rx_archive_file"
    by (simp_all add: rx_defs)
  have 3: "eol_free (rx_resource kind)" "ends_with (CHR ''}'') (rx_resource kind)" for kind
    by (simp_all add: rx_defs)
  show ?thesis
    using replaceAll_append [OF 1 assms] replaceAll_append [OF 2 assms]
      replaceAll_append [OF 3 assms]
    by (simp add: removeLocalFiles_def removeArchiveFiles_def providerCleanups_def)
qed

subsection \<open>Texts with nothing to rewrite\<close>







subsection \<open>The blocks that the patterns find\<close>

lemma scan_hits:
  "Hit w g \<in> set (scan m k b s) \<Longrightarrow>
   \<exists>c u n. suffix u s \<and> m (c, u) = Some (n, g) \<and> w = take n u"
proof (induction s arbitrary: k b)
  case Nil
  show ?case
  proof (cases "m (b, [])")
    case None
    then have e: "scan m k b [] = []" by simp
    from e Nil show ?thesis by (simp del: scan.simps)
  next
    case (Some a)
    obtain n h where a: "a = (n, h)" by (cases a)
    have e: "scan m k b [] = (if k = 0 then [Hit [] h] else [])" using Some a by simp
    from e Nil have "w = [] \<and> g = h" by (simp del: scan.simps split: if_splits)
    then show ?thesis using Some a
      by (intro exI [of _ b] exI [of _ "[]"] exI [of _ n]) simp
  qed
next
  case (Cons x xs)
  show ?case
  proof (cases "0 < k")
    case True
    with Cons.prems have "Hit w g \<in> set (scan m (k - 1) (isLineTerminator x) xs)" by simp
    from Cons.IH [OF this] show ?thesis by (auto simp: suffix_Cons)
  next
    case False
    show ?thesis
    proof (cases "m (b, x # xs)")
      case None
      with Cons.prems False have "Hit w g \<in> set (scan m 0 (isLineTerminator x) xs)" by simp
      from Cons.IH [OF this] show ?thesis by (auto simp: suffix_Cons)
    next
      case (Some a)
      obtain n h where a: "a = (n, h)" by (cases a)
      from Cons.prems False Some a consider "w = take n (x # xs)" "g = h"
        | j where "Hit w g \<in> set (scan m j (isLineTerminator x) xs)"
        by (auto split: if_splits)
      then show ?thesis
      proof cases
        case 1
        then show ?thesis using Some a by (intro exI [of _ b] exI [of _ "x # xs"] exI [of _ n]) simp
      next
        case 2
        from Cons.IH [OF this] show ?thesis by (auto simp: suffix_Cons)
      qed
    qed
  qed
qed

lemma found_hits:
  assumes "w \<in> set (found m s)"
  shows "\<exists>c u n g. suffix u s \<and> m (c, u) = Some (n, g) \<and> w = take n u"
proof -
  from assms obtain x where x: "x \<in> set (segments m s)"
    "w \<in> set (case x of Gap c \<Rightarrow> [] | Hit v g \<Rightarrow> [v])" by (auto simp: found_def)
  then obtain g where "x = Hit w g" by (cases x) auto
  with x(1) have "Hit w g \<in> set (scan m 0 True s)" by (simp add: segments_def)
  from scan_hits [OF this] show ?thesis by blast
qed

lemma plain_first:
  assumes "plain r (b, u) = Some (n, g)"
  shows "\<exists>q qs. ms r (b, u) = q # qs \<and> take n u @ snd q = u"
proof -
  from assms obtain q qs where q: "ms r (b, u) = q # qs" "n = length u - length (snd q)"
    by (auto simp: plain_def split: list.splits)
  then have "q \<in> set (ms r (b, u))" by simp
  from ms_sound [OF this] obtain w where "u = w @ snd q" by auto
  then have "take n u = w" using q(2) by simp
  then show ?thesis using q(1) \<open>u = w @ snd q\<close> by auto
qed

lemma concat_first:
  "concat xss = y # ys \<Longrightarrow> \<exists>xs\<in>set xss. \<exists>zs. xs = y # zs"
  by (induction xss) (auto simp: append_eq_Cons_conv)

lemma seq_first:
  assumes "ms (Seq a r) p = q # qs"
  shows "\<exists>m\<in>set (ms a p). \<exists>zs. ms r m = q # zs"
proof -
  from assms have "concat (map (ms r) (ms a p)) = q # qs" by simp
  from concat_first [OF this] show ?thesis by auto
qed

lemma lazy_until:
  "ms (Seq (Lazy (Cls (\<lambda>c. True))) (Lit [c])) (b, s) = q # qs \<Longrightarrow>
   \<exists>body. s = body @ c # snd q \<and> c \<notin> set body"
proof (induction s arbitrary: b)
  case Nil
  then show ?case by simp
next
  case (Cons x xs)
  show ?case
  proof (cases "x = c")
    case True
    with Cons.prems have "q = (isLineTerminator c, xs)"
      by (simp only: seq_lazy_cls_Cons) simp
    then show ?thesis using True by (intro exI [of _ "[]"]) simp
  next
    case False
    with Cons.prems have "ms (Seq (Lazy (Cls (\<lambda>c. True))) (Lit [c])) (isLineTerminator x, xs) = q # qs"
      by (simp only: seq_lazy_cls_Cons) simp
    from Cons.IH [OF this] obtain body where "xs = body @ c # snd q" "c \<notin> set body" by blast
    then show ?thesis using False by (intro exI [of _ "x # body"]) simp
  qed
qed

lemma seqs_append:
  "xs \<noteq> [] \<Longrightarrow> ys \<noteq> [] \<Longrightarrow> ms (seqs (xs @ ys)) = ms (Seq (seqs xs) (seqs ys))"
proof (induction xs rule: seqs.induct)
  case 1
  then show ?case by simp
next
  case (2 r)
  then show ?case by (cases ys) simp_all
next
  case (3 r v va)
  have "ms (seqs ((r # v # va) @ ys)) = ms (Seq r (seqs ((v # va) @ ys)))" by simp
  also have "\<dots> = ms (Seq r (Seq (seqs (v # va)) (seqs ys)))"
    by (rule ms_cong_Seq) (rule 3(1), simp, rule 3(3))
  also have "\<dots> = ms (Seq (Seq r (seqs (v # va))) (seqs ys))"
    by (rule seq_assoc_fun [symmetric])
  finally show ?case by simp
qed

lemma denote_star_cls: "denote (Star (Cls P)) x \<Longrightarrow> list_all P x"
proof -
  assume "denote (Star (Cls P)) x"
  then obtain us where us: "x = concat us" "list_all (denote (Cls P)) us" by auto
  have "list_all P (concat us)" using us(2)
  proof (induction us)
    case Nil
    then show ?case by simp
  next
    case (Cons u us)
    then obtain c where "u = [c]" "P c" by (cases u) (auto split: list.splits)
    then show ?case using Cons by simp
  qed
  then show ?thesis using us(1) by simp
qed

lemma denote_plus_cls: "denote (Plus (Cls P)) x \<Longrightarrow> x \<noteq> [] \<and> list_all P x"
proof -
  assume "denote (Plus (Cls P)) x"
  then obtain u v where uv: "x = u @ v" "denote (Cls P) u" "denote (Star (Cls P)) v"
    by (auto simp: Plus_def)
  from uv(2) obtain c where "u = [c]" "P c" by (cases u) (auto split: list.splits)
  then show ?thesis using uv(1) denote_star_cls [OF uv(3)] by simp
qed

lemma denote_header:
  assumes "denote (seqs (header_rx word kind)) h"
  shows "header word kind h"
proof -
  from assms have \<open>\<exists>w1 w2 name w3.
      h = word @ w1 @ (''"'' @ kind @ ''"'') @ w2 @ ''"'' @ name @ ''"'' @ w3 @ ''{'' \<and>
      denote (Plus ws) w1 \<and> denote (Plus ws) w2 \<and> denote (Plus (no ''"'')) name \<and>
      denote (Star ws) w3\<close>
    unfolding header_rx_def seqs.simps denote.simps(1,3) by blast
  then obtain w1 w2 name w3 where
    h: \<open>h = word @ w1 @ (''"'' @ kind @ ''"'') @ w2 @ ''"'' @ name @ ''"'' @ w3 @ ''{''\<close>
    and d: "denote (Plus ws) w1" "denote (Plus ws) w2" \<open>denote (Plus (no ''"'')) name\<close>
      "denote (Star ws) w3"
    by blast
  from d(1) have 1: "w1 \<noteq> [] \<and> list_all isWhiteSpace w1"
    unfolding ws_def by (rule denote_plus_cls)
  from d(2) have 2: "w2 \<noteq> [] \<and> list_all isWhiteSpace w2"
    unfolding ws_def by (rule denote_plus_cls)
  from d(3) have 3: \<open>name \<noteq> [] \<and> list_all (\<lambda>c. c \<notin> set ''"'') name\<close>
    unfolding no_def by (rule denote_plus_cls)
  from d(4) have 4: "list_all isWhiteSpace w3"
    unfolding ws_def by (rule denote_star_cls)
  from 3 have "CHR 0x22 \<notin> set name" by (auto simp: list_all_iff)
  then show ?thesis unfolding header_def using h 1 2 3 4 by auto
qed

lemma resource_split:
  "ms (rx_resource kind) =
   ms (Seq (seqs (header_rx ''resource'' kind)) (Seq (Lazy (Cls (\<lambda>c. True))) (Lit ''}'')))"
proof -
  have "rx_resource kind = seqs (header_rx ''resource'' kind @ [Lazy (Cls (\<lambda>c. True)), Lit ''}''])"
    unfolding rx_resource_def header_rx_def anything_def append.simps ..
  moreover have "ms (seqs (header_rx ''resource'' kind @ [Lazy (Cls (\<lambda>c. True)), Lit ''}''])) =
    ms (Seq (seqs (header_rx ''resource'' kind)) (seqs [Lazy (Cls (\<lambda>c. True)), Lit ''}'']))"
    by (rule seqs_append) (simp_all add: header_rx_def)
  ultimately show ?thesis by simp
qed

lemma resource_block:
  assumes "w \<in> set (found (plain (rx_resource kind)) s)"
  shows "\<exists>h body. w = h @ body @ ''}'' \<and> header ''resource'' kind h \<and> CHR ''}'' \<notin> set body"
proof -
  from found_hits [OF assms] obtain b u n g where
    u: "plain (rx_resource kind) (b, u) = Some (n, g)" "w = take n u" by blast
  from plain_first [OF u(1)] obtain q qs where
    q: "ms (rx_resource kind) (b, u) = q # qs" "w @ snd q = u" unfolding u(2) by blast
  have split: "ms (rx_resource kind) (b, u) =
        ms (Seq (seqs (header_rx ''resource'' kind)) (Seq (Lazy (Cls (\<lambda>c. True))) (Lit ''}''))) (b, u)"
    by (rule fun_cong [OF resource_split])
  from q(1) have "ms (Seq (seqs (header_rx ''resource'' kind)) (Seq (Lazy (Cls (\<lambda>c. True))) (Lit ''}''))) (b, u) = q # qs"
    unfolding split .
  from seq_first [OF this] obtain m zs where
    m: "m \<in> set (ms (seqs (header_rx ''resource'' kind)) (b, u))"
    "ms (Seq (Lazy (Cls (\<lambda>c. True))) (Lit ''}'')) m = q # zs" by blast
  from ms_sound [OF m(1)] obtain h where h: "u = h @ snd m" "denote (seqs (header_rx ''resource'' kind)) h"
    by auto
  from m(2) have "ms (Seq (Lazy (Cls (\<lambda>c. True))) (Lit [CHR ''}''])) (fst m, snd m) = q # zs" by simp
  from lazy_until [OF this] obtain body where
    body: "snd m = body @ CHR ''}'' # snd q" "CHR ''}'' \<notin> set body" by blast
  have "w @ snd q = (h @ body @ ''}'') @ snd q" unfolding q(2) using h(1) body(1) by simp
  then have "w = h @ body @ ''}''" by simp
  then show ?thesis using denote_header [OF h(2)] body(2) by blast
qed

lemma denote_seqs_append:
  "xs \<noteq> [] \<Longrightarrow> ys \<noteq> [] \<Longrightarrow> denote (seqs (xs @ ys)) w = denote (Seq (seqs xs) (seqs ys)) w"
proof (induction xs arbitrary: w rule: seqs.induct)
  case 1
  then show ?case by simp
next
  case (2 r)
  then show ?case by (cases ys) simp_all
next
  case (3 r v va)
  have "denote (seqs ((r # v # va) @ ys)) w = denote (Seq r (seqs ((v # va) @ ys))) w" by simp
  also have "\<dots> = (\<exists>a b. w = a @ b \<and> denote r a \<and> denote (Seq (seqs (v # va)) (seqs ys)) b)"
    using 3(1) [OF _ 3(3)] by simp
  also have "\<dots> = denote (Seq (seqs (r # v # va)) (seqs ys)) w"
    by (simp del: append_assoc add: append_assoc [symmetric]) (metis append_assoc)
  finally show ?case .
qed

lemma declaration_block:
  assumes "w \<in> set (found (plain (seqs (header_rx word kind @ [Star (no ''}''), Lit ''}'']))) s)"
  shows "\<exists>h body. w = h @ body @ ''}'' \<and> header word kind h \<and> CHR ''}'' \<notin> set body"
proof -
  let ?r = "seqs (header_rx word kind @ [Star (no ''}''), Lit ''}''])"
  from found_hits [OF assms] obtain b u n g where
    u: "plain ?r (b, u) = Some (n, g)" "w = take n u" by blast
  from plain_first [OF u(1)] obtain q qs where
    q: "ms ?r (b, u) = q # qs" "w @ snd q = u" unfolding u(2) by blast
  from q(1) have "q \<in> set (ms ?r (b, u))" by simp
  from ms_sound [OF this] obtain w' where w': "snd (b, u) = w' @ snd q" "denote ?r w'" by blast
  from w'(1) q(2) have "w' = w" by simp
  with w'(2) have "denote ?r w" by simp
  then have "denote (Seq (seqs (header_rx word kind)) (seqs [Star (no ''}''), Lit ''}''])) w"
    by (subst (asm) denote_seqs_append) (simp_all add: header_rx_def)
  then obtain h t where ht: "w = h @ t" "denote (seqs (header_rx word kind)) h"
    "denote (Seq (Star (no ''}'')) (Lit ''}'')) t" by auto
  from ht(3) obtain body where body: "t = body @ ''}''" "denote (Star (no ''}'')) body" by auto
  from body(2) have "list_all (\<lambda>c. c \<notin> set ''}'') body"
    unfolding no_def by (rule denote_star_cls)
  then have "CHR ''}'' \<notin> set body" by (auto simp: list_all_iff)
  then show ?thesis using ht(1) body(1) denote_header [OF ht(2)] by blast
qed

lemma local_file_header:
  "rx_local_file = seqs (header_rx ''resource'' ''local_file'' @ [Star (no ''}''), Lit ''}''])"
  by (simp add: rx_local_file_def header_rx_def)

lemma archive_file_header:
  "rx_archive_file = seqs (header_rx ''data'' ''archive_file'' @ [Star (no ''}''), Lit ''}''])"
  by (simp add: rx_archive_file_def header_rx_def)

subsection \<open>Blocks that the rewrite leaves as they are\<close>

lemma scan_fixed:
  "(\<forall>w g. Hit w g \<in> set (scan m k b s) \<longrightarrow> f w g = w) \<Longrightarrow>
   concat (map (\<lambda>x. case x of Gap c \<Rightarrow> [c] | Hit w g \<Rightarrow> f w g) (scan m k b s)) = drop k s"
proof (induction s arbitrary: k b)
  case Nil
  show ?case
  proof (cases "k = 0")
    case False
    then show ?thesis by simp
  next
    case True
    show ?thesis
    proof (cases "m (b, [])")
      case None
      then show ?thesis using True by simp
    next
      case (Some a)
      obtain n h where a: "a = (n, h)" by (cases a)
      have e: "scan m k b [] = [Hit [] h]" using True Some a by simp
      from Nil have "f [] h = []" unfolding e by simp
      then show ?thesis unfolding e by simp
    qed
  qed
next
  case (Cons c cs)
  show ?case
  proof (cases "0 < k")
    case True
    then have e: "scan m k b (c # cs) = scan m (k - 1) (isLineTerminator c) cs" by simp
    from Cons.prems have "\<forall>w g. Hit w g \<in> set (scan m (k - 1) (isLineTerminator c) cs) \<longrightarrow> f w g = w"
      unfolding e .
    from Cons.IH [OF this] show ?thesis unfolding e using True by (cases k) simp_all
  next
    case False
    then have k: "k = 0" by simp
    show ?thesis
    proof (cases "m (b, c # cs)")
      case None
      then have e: "scan m k b (c # cs) = Gap c # scan m 0 (isLineTerminator c) cs"
        using k by simp
      from Cons.prems have "\<forall>w g. Hit w g \<in> set (scan m 0 (isLineTerminator c) cs) \<longrightarrow> f w g = w"
        unfolding e by simp
      from Cons.IH [OF this] show ?thesis unfolding e using k by simp
    next
      case (Some a)
      obtain n h where a: "a = (n, h)" by (cases a)
      show ?thesis
      proof (cases "n = 0")
        case True
        have e: "scan m k b (c # cs) = Hit [] h # Gap c # scan m 0 (isLineTerminator c) cs"
          using k Some a True by simp
        from Cons.prems have 1: "f [] h = []"
          and 2: "\<forall>w g. Hit w g \<in> set (scan m 0 (isLineTerminator c) cs) \<longrightarrow> f w g = w"
          unfolding e by simp_all
        from Cons.IH [OF 2] 1 show ?thesis unfolding e using k by simp
      next
        case False
        have e: "scan m k b (c # cs) =
                 Hit (take n (c # cs)) h # scan m (n - 1) (isLineTerminator c) cs"
          using k Some a False by simp
        from Cons.prems have 1: "f (take n (c # cs)) h = take n (c # cs)"
          and 2: "\<forall>w g. Hit w g \<in> set (scan m (n - 1) (isLineTerminator c) cs) \<longrightarrow> f w g = w"
          unfolding e by simp_all
        have "take n (c # cs) @ drop (n - 1) cs = c # cs" using False by (cases n) simp_all
        with Cons.IH [OF 2] 1 show ?thesis unfolding e using k by simp
      qed
    qed
  qed
qed

lemma found_Hit: "w \<in> set (found m s) \<longleftrightarrow> (\<exists>g. Hit w g \<in> set (segments m s))"
proof
  assume "w \<in> set (found m s)"
  then obtain x where x: "x \<in> set (segments m s)"
    "w \<in> set (case x of Gap c \<Rightarrow> [] | Hit v g \<Rightarrow> [v])" by (auto simp: found_def)
  then obtain g where "x = Hit w g" by (cases x) auto
  with x(1) show "\<exists>g. Hit w g \<in> set (segments m s)" by blast
next
  assume "\<exists>g. Hit w g \<in> set (segments m s)"
  then obtain g where "Hit w g \<in> set (segments m s)" ..
  then show "w \<in> set (found m s)" unfolding found_def by force
qed

lemma replaceAll_fixed:
  assumes "\<And>w. w \<in> set (found m s) \<Longrightarrow> f w = w"
  shows "replaceAll m (\<lambda>w g. f w) s = s"
proof -
  have "\<forall>w g. Hit w g \<in> set (scan m 0 True s) \<longrightarrow> f w = w"
    using assms unfolding found_Hit segments_def by blast
  from scan_fixed [of m 0 True s "\<lambda>w g. f w", OF this] show ?thesis
    unfolding replaceAll_def segments_def by simp
qed

lemmas attr_defs = rx_attribute_line_def rx_quoted_attribute_def rx_inline_code_def
  rx_source_code_def Plus_def ws_def no_def anything_def dot_def

lemma strip_lambda_none:
  assumes "\<not> sublist ''filename'' b" and "\<not> sublist ''inline_code'' b"
  shows "stripLambdaAttributes b = b"
proof -
  have 1: "replaceAll (plain (rx_attribute_line ''filename'')) f b = b" for f
    by (rule replaceAll_requires [OF _ assms(1)]) (simp add: attr_defs)
  have 2: "replaceAll (plain rx_inline_code) f b = b" for f
    by (rule replaceAll_requires [OF _ assms(2)]) (simp add: attr_defs)
  show ?thesis by (simp add: stripLambdaAttributes_def 1 2)
qed

lemma strip_gcp_none:
  assumes "\<not> sublist ''source_repository'' b" and "\<not> sublist ''build_environment_variables'' b"
    and "\<not> sublist ''source_archive_bucket'' b" and "\<not> sublist ''source_archive_object'' b"
  shows "stripGcpAttributes b = b"
proof -
  have "replaceAll (plain (rx_attribute_line name)) f b = b" if "\<not> sublist name b" for name f
    by (rule replaceAll_requires [OF _ that]) (simp add: attr_defs)
  then show ?thesis using assms by (simp add: stripGcpAttributes_def)
qed

subsection \<open>A declaration that is removed\<close>

lemma firstm_Lit: "firstm (Lit w) (w @ t) t"
  by (simp add: firstm_def)

lemma firstm_Seq:
  assumes "firstm a s m" and "firstm r m t"
  shows "firstm (Seq a r) s t"
  unfolding firstm_def
proof
  fix b
  from assms(1) obtain b1 qs1 where 1: "ms a (b, s) = (b1, m) # qs1" unfolding firstm_def by blast
  from assms(2) obtain b2 qs2 where 2: "ms r (b1, m) = (b2, t) # qs2" unfolding firstm_def by blast
  have "ms (Seq a r) (b, s) = (b2, t) # qs2 @ concat (map (ms r) qs1)"
    using 1 2 by simp
  then show "\<exists>b' qs. ms (Seq a r) (b, s) = (b', t) # qs" by blast
qed

lemma firstm_Star:
  assumes "list_all P w" and "t = [] \<or> \<not> P (hd t)"
  shows "firstm (Star (Cls P)) (w @ t) t"
  unfolding firstm_def using assms(1)
proof (induction w)
  case Nil
  show ?case
  proof (cases t)
    case Nil
    then show ?thesis by simp
  next
    case (Cons c cs)
    with assms(2) have "\<not> P c" by simp
    then show ?thesis unfolding Cons append_Nil by (simp only: star_cls_Cons) simp
  qed
next
  case (Cons c w)
  then have c: "P c" and w: "list_all P w" by simp_all
  show ?case
  proof
    fix b
    from Cons.IH [OF w] obtain b' qs where
      "ms (Star (Cls P)) (isLineTerminator c, w @ t) = (b', t) # qs" by blast
    then have "ms (Star (Cls P)) (b, (c # w) @ t) = (b', t) # qs @ [(b, c # w @ t)]"
      using c by (simp only: append_Cons star_cls_Cons) simp
    then show "\<exists>b' qs. ms (Star (Cls P)) (b, (c # w) @ t) = (b', t) # qs" by blast
  qed
qed

lemma firstm_Plus:
  assumes "w \<noteq> []" and "list_all P w" and "t = [] \<or> \<not> P (hd t)"
  shows "firstm (Plus (Cls P)) (w @ t) t"
proof -
  from assms(1,2) obtain c cs where w: "w = c # cs" "P c" "list_all P cs" by (cases w) auto
  have "firstm (Cls P) (c # cs @ t) (cs @ t)" using w(2) by (simp add: firstm_def)
  moreover have "firstm (Star (Cls P)) (cs @ t) t" using w(3) assms(3) by (rule firstm_Star)
  ultimately show ?thesis unfolding Plus_def w(1) append_Cons by (rule firstm_Seq)
qed

lemma firstm_plain:
  assumes "firstm r (d @ v) v"
  shows "plain r (b, d @ v) = Some (length d, [])"
proof -
  from assms obtain b' qs where "ms r (b, d @ v) = (b', v) # qs" unfolding firstm_def by blast
  then show ?thesis by (simp add: plain_def)
qed

lemma declaration_first:
  assumes "header word kind h" and "CHR ''}'' \<notin> set body"
  shows "firstm (seqs (header_rx word kind @ [Star (no ''}''), Lit ''}''])) (h @ body @ ''}'' @ v) v"
proof -
  from assms(1) obtain w1 w2 name w3 where
    h: \<open>h = word @ w1 @ ''"'' @ kind @ ''"'' @ w2 @ ''"'' @ name @ ''"'' @ w3 @ ''{''\<close>
    and w1: "w1 \<noteq> []" "list_all isWhiteSpace w1"
    and w2: "w2 \<noteq> []" "list_all isWhiteSpace w2"
    and name: "name \<noteq> []" "CHR 0x22 \<notin> set name"
    and w3: "list_all isWhiteSpace w3"
    unfolding header_def by blast
  define t10 where "t10 = ''}'' @ v"
  define t9 where "t9 = body @ t10"
  define t8 where "t8 = ''{'' @ t9"
  define t7 where "t7 = w3 @ t8"
  define t6 where \<open>t6 = ''"'' @ t7\<close>
  define t5 where "t5 = name @ t6"
  define t4 where \<open>t4 = ''"'' @ t5\<close>
  define t3 where "t3 = w2 @ t4"
  define t2 where \<open>t2 = (''"'' @ kind @ ''"'') @ t3\<close>
  define t1 where "t1 = w1 @ t2"
  have q: "\<not> isWhiteSpace (CHR 0x22)" "\<not> isWhiteSpace (CHR ''{'')" by (simp_all add: isWhiteSpace_def)
  have s11: "firstm (Lit ''}'') t10 v" unfolding t10_def by (rule firstm_Lit)
  have s10: "firstm (Star (no ''}'')) t9 t10" unfolding t9_def no_def
    by (rule firstm_Star) (use assms(2) in \<open>auto simp: list_all_iff t10_def\<close>)
  have s9: "firstm (Lit ''{'') t8 t9" unfolding t8_def by (rule firstm_Lit)
  have s8: "firstm (Star ws) t7 t8" unfolding t7_def ws_def
    by (rule firstm_Star) (use w3 q in \<open>simp_all add: t8_def\<close>)
  have s7: \<open>firstm (Lit ''"'') t6 t7\<close> unfolding t6_def by (rule firstm_Lit)
  have s6: \<open>firstm (Plus (no ''"'')) t5 t6\<close> unfolding t5_def no_def
    by (rule firstm_Plus) (use name in \<open>auto simp: list_all_iff t6_def\<close>)
  have s5: \<open>firstm (Lit ''"'') t4 t5\<close> unfolding t4_def by (rule firstm_Lit)
  have s4: "firstm (Plus ws) t3 t4" unfolding t3_def ws_def
    by (rule firstm_Plus) (use w2 q in \<open>simp_all add: t4_def\<close>)
  have s3: \<open>firstm (Lit (''"'' @ kind @ ''"'')) t2 t3\<close> unfolding t2_def by (rule firstm_Lit)
  have s2: "firstm (Plus ws) t1 t2" unfolding t1_def ws_def
    by (rule firstm_Plus) (use w1 q in \<open>simp_all add: t2_def\<close>)
  have s1: "firstm (Lit word) (word @ t1) t1" by (rule firstm_Lit)
  note c = firstm_Seq
  have "firstm (seqs (header_rx word kind @ [Star (no ''}''), Lit ''}''])) (word @ t1) v"
    using c [OF s1 c [OF s2 c [OF s3 c [OF s4 c [OF s5 c [OF s6 c [OF s7 c [OF s8 c [OF s9
        c [OF s10 s11]]]]]]]]]]
    by (simp add: header_rx_def)
  moreover have "word @ t1 = h @ body @ ''}'' @ v"
    unfolding h t1_def t2_def t3_def t4_def t5_def t6_def t7_def t8_def t9_def t10_def by simp
  ultimately show ?thesis by simp
qed

lemma no_start_before:
  assumes eq: "u' @ word @ y = word @ w1 @ label @ z"
    and u': "u' \<noteq> []" and word: "word \<noteq> []"
    and unb: "\<And>k. 0 < k \<Longrightarrow> k < length word \<Longrightarrow> \<not> prefix (drop k word) word"
    and w1: "hd word \<notin> set w1" and label: "hd word \<notin> set label"
  shows "sublist label u'"
proof -
  define n where "n = length u'"
  have n: "0 < n" using u' by (simp add: n_def)
  have d: "word @ y = drop n (word @ w1 @ label @ z)"
    using arg_cong [OF eq, of "drop n"] by (simp add: n_def)
  have hd: "hd (word @ y) = hd word" using word by simp
  consider "n < length word" | "length word \<le> n" "n < length word + length w1"
    | "length word + length w1 \<le> n" "n < length word + length w1 + length label"
    | "length word + length w1 + length label \<le> n" by linarith
  then show ?thesis
  proof cases
    case 1
    then have "word @ y = drop n word @ w1 @ label @ z" using d by simp
    then have "prefix (drop n word) (word @ y)" by (metis prefixI)
    moreover have "prefix word (word @ y)" by simp
    moreover have "length (drop n word) \<le> length word" by simp
    ultimately have "prefix (drop n word) word" by (rule prefix_length_prefix)
    with unb [OF n 1] show ?thesis by simp
  next
    case 2
    define k where "k = n - length word"
    have k: "k < length w1" using 2 by (simp add: k_def)
    have "word @ y = drop k w1 @ label @ z" using d 2 by (simp add: k_def)
    moreover have "drop k w1 \<noteq> []" using k by simp
    ultimately have "hd word = hd (drop k w1)" using hd by simp
    also have "\<dots> \<in> set (drop k w1)" using \<open>drop k w1 \<noteq> []\<close> by (rule hd_in_set)
    finally have "hd word \<in> set w1" by (rule in_set_dropD)
    with w1 show ?thesis by simp
  next
    case 3
    define k where "k = n - length word - length w1"
    have k: "k < length label" using 3 by (simp add: k_def)
    have "word @ y = drop k label @ z" using d 3 by (simp add: k_def)
    moreover have "drop k label \<noteq> []" using k by simp
    ultimately have "hd word = hd (drop k label)" using hd by simp
    also have "\<dots> \<in> set (drop k label)" using \<open>drop k label \<noteq> []\<close> by (rule hd_in_set)
    finally have "hd word \<in> set label" by (rule in_set_dropD)
    with label show ?thesis by simp
  next
    case 4
    have "u' = take n (word @ w1 @ label @ z)"
      using arg_cong [OF eq, of "take n"] by (simp add: n_def)
    also have "\<dots> = (word @ w1) @ label @ take (n - length word - length w1 - length label) z"
      using 4 by simp
    finally show ?thesis unfolding sublist_def by blast
  qed
qed

lemma declaration_no_start:
  assumes u: "\<not> sublist (''\"'' @ kind @ ''\"'') (u1 @ u2)" and u2: "u2 \<noteq> []"
    and word: "word \<noteq> []"
    and unb: "\<And>k. 0 < k \<Longrightarrow> k < length word \<Longrightarrow> \<not> prefix (drop k word) word"
    and ws: "\<not> isWhiteSpace (hd word)" and label: "hd word \<notin> set (''\"'' @ kind @ ''\"'')"
  shows "plain (seqs (header_rx word kind @ [Star (no ''}''), Lit ''}''])) (b, u2 @ word @ y) = None"
proof -
  let ?r = "seqs (header_rx word kind @ [Star (no ''}''), Lit ''}''])"
  have "ms ?r (b, u2 @ word @ y) = []"
  proof (rule ccontr)
    assume "ms ?r (b, u2 @ word @ y) \<noteq> []"
    then obtain q where "q \<in> set (ms ?r (b, u2 @ word @ y))"
      by (cases "ms ?r (b, u2 @ word @ y)") auto
    from ms_sound [OF this] obtain w where w: "u2 @ word @ y = w @ snd q" "denote ?r w" by auto
    from w(2) have "denote (Seq (seqs (header_rx word kind)) (seqs [Star (no ''}''), Lit ''}''])) w"
      by (subst (asm) denote_seqs_append) (simp_all add: header_rx_def)
    then obtain h t where ht: "w = h @ t" "denote (seqs (header_rx word kind)) h" by auto
    from denote_header [OF ht(2)] obtain w1 x where
      h: "h = word @ w1 @ (''\"'' @ kind @ ''\"'') @ x" and w1: "list_all isWhiteSpace w1"
      unfolding header_def by auto
    have eq: "u2 @ word @ y = word @ w1 @ (''\"'' @ kind @ ''\"'') @ (x @ t @ snd q)"
      unfolding w(1) ht(1) h by simp
    have "hd word \<notin> set w1" using w1 ws by (auto simp: list_all_iff)
    from no_start_before [OF eq u2 word unb this label]
    have "sublist (''\"'' @ kind @ ''\"'') u2" .
    then have "sublist (''\"'' @ kind @ ''\"'') (u1 @ u2)" by (auto simp: sublist_append)
    with u show False by simp
  qed
  then show ?thesis by (simp add: plain_def)
qed

lemma scan_gaps:
  assumes bol: "\<And>b b' t. m (b, t) = m (b', t)"
  shows "(\<forall>u1 u2 b. u = u1 @ u2 \<and> u2 \<noteq> [] \<longrightarrow> m (b, u2 @ t) = None) \<Longrightarrow>
         scan m 0 b (u @ t) = map Gap u @ scan m 0 b' t"
proof (induction u arbitrary: b)
  case Nil
  show ?case using scan_bol_irrelevant [of m, OF bol, of 0 b t b'] by simp
next
  case (Cons c cs)
  from Cons.prems have "m (b, (c # cs) @ t) = None" by blast
  then have e: "scan m 0 b ((c # cs) @ t) = Gap c # scan m 0 (isLineTerminator c) (cs @ t)"
    by simp
  have "\<forall>u1 u2 b. cs = u1 @ u2 \<and> u2 \<noteq> [] \<longrightarrow> m (b, u2 @ t) = None"
  proof (intro allI impI)
    fix u1 u2 b
    assume "cs = u1 @ u2 \<and> u2 \<noteq> []"
    then have "c # cs = (c # u1) @ u2 \<and> u2 \<noteq> []" by simp
    with Cons.prems show "m (b, u2 @ t) = None" by blast
  qed
  from Cons.IH [OF this] show ?case unfolding e by simp
qed

lemma scan_hit:
  assumes bol: "\<And>b b' t. m (b, t) = m (b', t)"
    and hit: "m (b, d @ v) = Some (length d, g)" and d: "d \<noteq> []"
  shows "scan m 0 b (d @ v) = Hit d g # scan m 0 b' v"
proof -
  from d obtain c cs where c: "d = c # cs" by (cases d) auto
  have "scan m 0 b (d @ v) = Hit d g # scan m (length cs) (isLineTerminator c) (cs @ v)"
    using hit unfolding c by simp
  moreover have "scan m (length cs) (isLineTerminator c) (cs @ v) = scan m 0 b' (drop (length cs) (cs @ v))"
    by (rule scan_skip [of m, OF bol]) simp
  ultimately show ?thesis by simp
qed

lemma replaceAll_declaration:
  assumes bol: "\<And>b b' t. m (b, t) = m (b', t)"
    and none: "\<And>u1 u2 b. u = u1 @ u2 \<Longrightarrow> u2 \<noteq> [] \<Longrightarrow> m (b, u2 @ d @ v) = None"
    and hit: "\<And>b. m (b, d @ v) = Some (length d, g)" and d: "d \<noteq> []"
  shows "replaceAll m f (u @ d @ v) = u @ f d g @ replaceAll m f v"
proof -
  have "scan m 0 True (u @ d @ v) = map Gap u @ scan m 0 True (d @ v)"
    by (rule scan_gaps [of m, OF bol]) (use none in blast)
  also have "scan m 0 True (d @ v) = Hit d g # scan m 0 True v"
    using bol hit d by (rule scan_hit)
  finally have "segments m (u @ d @ v) = map Gap u @ Hit d g # segments m v"
    by (simp add: segments_def)
  moreover have "concat (map (\<lambda>x. case x of Gap c \<Rightarrow> [c] | Hit w g \<Rightarrow> f w g) (map Gap u)) = u"
    by (induction u) simp_all
  ultimately show ?thesis by (simp add: replaceAll_def)
qed

lemma declaration_removed_from:
  assumes u: "\<not> sublist (''\"'' @ kind @ ''\"'') u"
    and d: "runsToFirstBrace word kind d"
    and word: "word \<noteq> []"
    and unb: "\<And>k. 0 < k \<Longrightarrow> k < length word \<Longrightarrow> \<not> prefix (drop k word) word"
    and ws: "\<not> isWhiteSpace (hd word)" and label: "hd word \<notin> set (''\"'' @ kind @ ''\"'')"
  shows "replaceAll (plain (seqs (header_rx word kind @ [Star (no ''}''), Lit ''}'']))) (\<lambda>w g. []) (u @ d @ v) =
         u @ replaceAll (plain (seqs (header_rx word kind @ [Star (no ''}''), Lit ''}'']))) (\<lambda>w g. []) v"
proof -
  let ?r = "seqs (header_rx word kind @ [Star (no ''}''), Lit ''}''])"
  from d obtain h body where hb: "d = h @ body @ ''}''" "header word kind h" "CHR ''}'' \<notin> set body"
    unfolding runsToFirstBrace_def by blast
  from hb(2) obtain y where y: "h = word @ y" unfolding header_def by auto
  have lit: "?r = Seq (Lit word) (seqs (tl (header_rx word kind) @ [Star (no ''}''), Lit ''}'']))"
    by (simp add: header_rx_def)
  have bol: "plain ?r (b, t) = plain ?r (b', t)" for b b' t
    unfolding lit using word by (simp add: plain_def split: list.splits)
  have "firstm ?r (h @ body @ ''}'' @ v) v" using hb(2,3) by (rule declaration_first)
  then have "firstm ?r (d @ v) v" unfolding hb(1) by simp
  then have hit: "plain ?r (b, d @ v) = Some (length d, [])" for b by (rule firstm_plain)
  have none: "plain ?r (b, u2 @ d @ v) = None" if "u = u1 @ u2" "u2 \<noteq> []" for u1 u2 b
  proof -
    have "plain ?r (b, u2 @ word @ (y @ body @ ''}'' @ v)) = None"
      using u that(2) word unb ws label unfolding that(1) by (rule declaration_no_start)
    then show ?thesis unfolding hb(1) y by simp
  qed
  have "d \<noteq> []" unfolding hb(1) by simp
  from replaceAll_declaration [of "plain ?r" u d v "[]" "\<lambda>w g. []", OF bol none hit this]
  show ?thesis by simp
qed

lemma found_runs_to_first_brace:
  "w \<in> set (found (plain (seqs (header_rx word kind @ [Star (no ''}''), Lit ''}'']))) s) \<Longrightarrow>
   runsToFirstBrace word kind w"
  unfolding runsToFirstBrace_def by (rule declaration_block)

lemma resource_unbordered:
  "0 < k \<Longrightarrow> k < length ''resource'' \<Longrightarrow> \<not> prefix (drop k ''resource'') ''resource''"
proof -
  assume "0 < k" "k < length ''resource''"
  then have "k \<in> {1, 2, 3, 4, 5, 6, 7}" by auto
  then show ?thesis by auto
qed

lemma data_unbordered:
  "0 < k \<Longrightarrow> k < length ''data'' \<Longrightarrow> \<not> prefix (drop k ''data'') ''data''"
proof -
  assume "0 < k" "k < length ''data''"
  then have "k \<in> {1, 2, 3}" by auto
  then show ?thesis by auto
qed

lemma local_file_removed:
  assumes \<open>\<not> sublist ''"local_file"'' u\<close> and "runsToFirstBrace ''resource'' ''local_file'' d"
  shows "removeLocalFiles (u @ d @ v) = u @ removeLocalFiles v"
proof -
  from assms(1) have u: \<open>\<not> sublist (''"'' @ ''local_file'' @ ''"'') u\<close> by simp
  show ?thesis
    unfolding removeLocalFiles_def local_file_header
    by (rule declaration_removed_from [OF u assms(2) _ resource_unbordered])
       (simp_all add: isWhiteSpace_def)
qed

lemma archive_file_removed:
  assumes \<open>\<not> sublist ''"archive_file"'' u\<close> and "runsToFirstBrace ''data'' ''archive_file'' d"
  shows "removeArchiveFiles (u @ d @ v) = u @ removeArchiveFiles v"
proof -
  from assms(1) have u: \<open>\<not> sublist (''"'' @ ''archive_file'' @ ''"'') u\<close> by simp
  show ?thesis
    unfolding removeArchiveFiles_def archive_file_header
    by (rule declaration_removed_from [OF u assms(2) _ data_unbordered])
       (simp_all add: isWhiteSpace_def)
qed

lemma local_file_none: \<open>\<not> sublist ''"local_file"'' s \<Longrightarrow> removeLocalFiles s = s\<close>
  unfolding removeLocalFiles_def by (rule replaceAll_requires) (simp_all add: rx_defs)

lemma archive_file_none: \<open>\<not> sublist ''"archive_file"'' s \<Longrightarrow> removeArchiveFiles s = s\<close>
  unfolding removeArchiveFiles_def by (rule replaceAll_requires) (simp_all add: rx_defs)

lemma local_file_runs:
  "d \<in> set (found (plain rx_local_file) s) \<Longrightarrow> runsToFirstBrace ''resource'' ''local_file'' d"
  unfolding local_file_header by (rule found_runs_to_first_brace)

lemma archive_file_runs:
  "d \<in> set (found (plain rx_archive_file) s) \<Longrightarrow> runsToFirstBrace ''data'' ''archive_file'' d"
  unfolding archive_file_header by (rule found_runs_to_first_brace)

lemma found_requires:
  assumes "requires l r" and "\<not> sublist l s"
  shows "found (plain r) s = []"
proof -
  have "plain r (b, t) = None" if "suffix t s" for b t
    using requires_no_match [OF assms that] by (simp add: plain_def)
  then have "scan (plain r) 0 True s = map Gap s" by (rule scan_no_match)
  moreover have "concat (map (\<lambda>x. case x of Gap c \<Rightarrow> [] | Hit w g \<Rightarrow> [w]) (map Gap s)) = []"
    by (induction s) simp_all
  ultimately show ?thesis by (simp add: found_def segments_def)
qed

lemma local_file_gone:
  assumes \<open>\<not> sublist ''"local_file"'' (u @ v)\<close> and "runsToFirstBrace ''resource'' ''local_file'' d"
  shows "found (plain rx_local_file) (removeLocalFiles (u @ d @ v)) = []"
proof -
  from assms(1) have u: \<open>\<not> sublist ''"local_file"'' u\<close> and v: \<open>\<not> sublist ''"local_file"'' v\<close>
    by (auto simp: sublist_append)
  have "removeLocalFiles (u @ d @ v) = u @ v"
    using local_file_removed [OF u assms(2)] local_file_none [OF v] by simp
  moreover have "found (plain rx_local_file) (u @ v) = []"
    by (rule found_requires [OF _ assms(1)]) (simp add: rx_defs)
  ultimately show ?thesis by simp
qed

lemma archive_file_gone:
  assumes \<open>\<not> sublist ''"archive_file"'' (u @ v)\<close> and "runsToFirstBrace ''data'' ''archive_file'' d"
  shows "found (plain rx_archive_file) (removeArchiveFiles (u @ d @ v)) = []"
proof -
  from assms(1) have u: \<open>\<not> sublist ''"archive_file"'' u\<close> and v: \<open>\<not> sublist ''"archive_file"'' v\<close>
    by (auto simp: sublist_append)
  have "removeArchiveFiles (u @ d @ v) = u @ v"
    using archive_file_removed [OF u assms(2)] archive_file_none [OF v] by simp
  moreover have "found (plain rx_archive_file) (u @ v) = []"
    by (rule found_requires [OF _ assms(1)]) (simp add: rx_defs)
  ultimately show ?thesis by simp
qed

subsection \<open>The stages of the cleanup on the scenario\<close>






subsection \<open>The values that the upload handler reads\<close>

lemma callToLowerCase_string:
  "truthy v \<Longrightarrow> \<not> notAString v \<Longrightarrow> \<exists>s. v = JSString s \<and> s \<noteq> []"
  by (cases v) (simp_all add: notAString_def)

lemma callToLowerCase_throws: "notAString v \<Longrightarrow> callToLowerCase v = Inl (Thrown ''TypeError'')"
  by (cases v) (simp_all add: notAString_def)

subsection \<open>The result of the final cleanup\<close>




section \<open>The claims\<close>

subsection \<open>Running the cleanup twice\<close>




subsection \<open>An unterminated declaration\<close>

text \<open>
  Claim C5 as stated fails. The text is a \<^verbatim>\<open>local_file\<close> declaration without its
  closing brace, followed by a complete function: the pattern of the first runs to
  the closing brace of the second, both are deleted, and the result is the empty text.
  The result is a text alone: no warning is recorded anywhere.
\<close>

theorem unterminated_swallows_next:
  "cleanTerraform ''aws'' unterminated_then_lambda = []"
  by code_simp

text \<open>
  Claim C5, as the code has it. The cleanup is a total function from a text to a
  text. When no closing brace follows in the text from some point on (\<open>tail\<close>, which
  starts at the latest with the unterminated declaration), the three stages that
  work on blocks leave \<open>tail\<close> as it is and treat the text before it as they would
  treat it alone.
\<close>

theorem unterminated_tail_kept:
  "CHR ''}'' \<notin> set tail \<longrightarrow>
     removeLocalFiles (s @ tail) = removeLocalFiles s @ tail \<and>
     removeArchiveFiles (s @ tail) = removeArchiveFiles s @ tail \<and>
     providerCleanups cloudProvider (s @ tail) = providerCleanups cloudProvider s @ tail"
  using block_stages_append [of tail s cloudProvider] by blast

theorem unterminated_tail_kept_witness:
  \<open>removeLocalFiles (''resource "local_file" "b" {}\<newline>'' @ unterminated_tail) =
     ''\<newline>'' @ unterminated_tail\<close>
proof -
  have t: "CHR ''}'' \<notin> set unterminated_tail" by code_simp
  have v: \<open>removeLocalFiles ''resource "local_file" "b" {}\<newline>'' = ''\<newline>''\<close> by code_simp
  from unterminated_tail_kept [of unterminated_tail \<open>''resource "local_file" "b" {}\<newline>''\<close> "''aws''"] t v
  show ?thesis by simp
qed

subsection \<open>Empty lines\<close>




subsection \<open>The handlers\<close>

text \<open>
  Claim C10. When \<^verbatim>\<open>editTerraformCode\<close> throws, \<^verbatim>\<open>POST /edit\<close> answers 500 and
  leaves the stored code, the path and the files as they were; whenever the handler
  changes the state, the edit had returned a text.
\<close>

theorem edit_failure_keeps_state:
  "(editTerraformCode gemini (lastGeneratedCode sv) instruction = Inl err \<longrightarrow>
      edit gemini instruction sv = (Response 500 ''Failed to edit code'', sv)) \<and>
   (snd (edit gemini instruction sv) \<noteq> sv \<longrightarrow>
      (\<exists>updatedCode.
         editTerraformCode gemini (lastGeneratedCode sv) instruction = Inr updatedCode))"
  by (auto simp: edit_def split: sum.splits)

theorem edit_failure_keeps_state_witness:
  "edit (\<lambda>code instruction. Inl (Thrown ''quota'')) ''rename the bucket'' server0 =
     (Response 500 ''Failed to edit code'', server0)"
  using edit_failure_keeps_state
    [of "\<lambda>code instruction. Inl (Thrown ''quota'')" server0 "''rename the bucket''" "Thrown ''quota''"]
  by (simp add: editTerraformCode_def)

text \<open>
  Claim C4, as the code has it. The provider names are compared in lower case, and
  the query parameter stands in for a provider the diagram parser did not name. When
  neither of the two is, in lower case, one of \<^verbatim>\<open>aws\<close>, \<^verbatim>\<open>azure\<close>, \<^verbatim>\<open>gcp\<close>,
  the handler rejects the request before any Terraform text is generated or cleaned,
  and the state of the server is unchanged. The answer is 400 when each of the two
  values is falsy or a string. It is 500 when the parsed answer is \<^verbatim>\<open>null\<close>, when
  the provider in it is truthy and not a string, or when the query parameter is read
  and is truthy and not a string (an array for a repeated parameter): the call of
  \<^verbatim>\<open>toLowerCase\<close> throws and the \<^verbatim>\<open>catch\<close> of the handler answers.
\<close>

theorem upload_rejects_unsupported:
  "(getCloudProvider parsedDiagramJson = Inl err \<longrightarrow>
      upload gemini uniqueId parsedDiagramJson query jsonString sv =
        (Response 500 ''Error generating Terraform code'', sv)) \<and>
   (getCloudProvider parsedDiagramJson = Inr detected \<and> \<not> accepted detected \<and>
    (notAString detected \<or> \<not> accepted query) \<longrightarrow>
      (\<exists>msg. upload gemini uniqueId parsedDiagramJson query jsonString sv =
         (Response (if notAString detected \<or> notAString query then 500 else 400) msg, sv)))"
proof (intro conjI impI)
  assume "getCloudProvider parsedDiagramJson = Inl err"
  then show "upload gemini uniqueId parsedDiagramJson query jsonString sv =
        (Response 500 ''Error generating Terraform code'', sv)"
    by (simp add: upload_def resolveProvider_def)
next
  assume a: "getCloudProvider parsedDiagramJson = Inr detected \<and> \<not> accepted detected \<and>
    (notAString detected \<or> \<not> accepted query)"
  show "\<exists>msg. upload gemini uniqueId parsedDiagramJson query jsonString sv =
         (Response (if notAString detected \<or> notAString query then 500 else 400) msg, sv)"
  proof (cases "notAString detected")
    case True
    then have "truthy detected" by (simp add: notAString_def)
    then show ?thesis using a True callToLowerCase_throws [OF True]
      by (simp add: upload_def resolveProvider_def)
  next
    case False
    have d: "(if truthy detected then callToLowerCase detected else Inr ''unknown'') = Inr c \<Longrightarrow>
             c = ''unknown'' \<or> c \<notin> set supportedProviders" for c
      using a False callToLowerCase_string [of detected]
      by (auto simp: accepted_def split: if_splits)
    obtain c where c: "(if truthy detected then callToLowerCase detected else Inr ''unknown'') = Inr c"
      using False callToLowerCase_string [of detected] by (cases "truthy detected") auto
    show ?thesis
    proof (cases "notAString query")
      case True
      then have "truthy query" by (simp add: notAString_def)
      then show ?thesis using a c d [OF c] True callToLowerCase_throws [OF True]
        by (simp add: upload_def resolveProvider_def)
    next
      case F: False
      show ?thesis
      proof (cases "truthy query")
        case True
        from callToLowerCase_string [OF True F] obtain s where s: "query = JSString s" "s \<noteq> []" by blast
        with a False have "toLowerCase s \<notin> set supportedProviders" by (simp add: accepted_def)
        then show ?thesis using a c d [OF c] False F s
          by (simp add: upload_def resolveProvider_def)
      next
        case T: False
        then show ?thesis using a c d [OF c] False F
          by (simp add: upload_def resolveProvider_def)
      qed
    qed
  qed
qed

theorem upload_rejects_unsupported_witness:
  "upload (\<lambda>j p. Inr ''a'') ''0a1b2c'' JSNull (JSString ''aws'') ''null'' server0 =
     (Response 500 ''Error generating Terraform code'', server0) \<and>
   (\<exists>msg. upload (\<lambda>j p. Inr ''a'') ''0a1b2c'' (JSObject [(''cloudProvider'', JSString ''Unknown'')])
             (JSString ''oracle'') ''{}'' server0 = (Response 400 msg, server0)) \<and>
   (\<exists>msg. upload (\<lambda>j p. Inr ''a'') ''0a1b2c'' (JSObject [(''cloudProvider'', JSString ''Unknown'')])
             (JSArray [JSString ''aws'', JSString ''gcp'']) ''{}'' server0 = (Response 500 msg, server0)) \<and>
   (\<exists>msg. upload (\<lambda>j p. Inr ''a'') ''0a1b2c'' (JSObject [(''cloudProvider'', JSNumber 1)])
             (JSString ''aws'') ''{}'' server0 = (Response 500 msg, server0))"
proof -
  have g0: "getCloudProvider JSNull = Inl (Thrown ''TypeError'')" by simp
  have g1: "getCloudProvider (JSObject [(''cloudProvider'', JSString ''Unknown'')]) = Inr (JSString ''Unknown'')"
    by simp
  have g2: "getCloudProvider (JSObject [(''cloudProvider'', JSNumber 1)]) = Inr (JSNumber 1)"
    by simp
  have a1: "\<not> accepted (JSString ''Unknown'')" "\<not> accepted (JSString ''oracle'')"
    "\<not> accepted (JSArray [JSString ''aws'', JSString ''gcp''])" "\<not> accepted (JSNumber 1)"
    by (simp_all add: accepted_def toLowerCase_def lowerChar_def supportedProviders_def)
  have n: "\<not> notAString (JSString ''Unknown'')" "\<not> notAString (JSString ''oracle'')"
    "notAString (JSArray [JSString ''aws'', JSString ''gcp''])" "notAString (JSNumber 1)"
    by (simp_all add: notAString_def)
  from upload_rejects_unsupported [of JSNull "Thrown ''TypeError''" "\<lambda>j p. Inr ''a''" "''0a1b2c''"
      "JSString ''aws''" "''null''" server0] g0
  have 1: "upload (\<lambda>j p. Inr ''a'') ''0a1b2c'' JSNull (JSString ''aws'') ''null'' server0 =
     (Response 500 ''Error generating Terraform code'', server0)" by blast
  from upload_rejects_unsupported [of "JSObject [(''cloudProvider'', JSString ''Unknown'')]" _
      "\<lambda>j p. Inr ''a''" "''0a1b2c''" "JSString ''oracle''" "''{}''" server0 "JSString ''Unknown''"]
    g1 a1 n
  have 2: "\<exists>msg. upload (\<lambda>j p. Inr ''a'') ''0a1b2c'' (JSObject [(''cloudProvider'', JSString ''Unknown'')])
             (JSString ''oracle'') ''{}'' server0 = (Response 400 msg, server0)" by simp
  from upload_rejects_unsupported [of "JSObject [(''cloudProvider'', JSString ''Unknown'')]" _
      "\<lambda>j p. Inr ''a''" "''0a1b2c''" "JSArray [JSString ''aws'', JSString ''gcp'']" "''{}''" server0
      "JSString ''Unknown''"] g1 a1 n
  have 3: "\<exists>msg. upload (\<lambda>j p. Inr ''a'') ''0a1b2c'' (JSObject [(''cloudProvider'', JSString ''Unknown'')])
             (JSArray [JSString ''aws'', JSString ''gcp'']) ''{}'' server0 = (Response 500 msg, server0)"
    by simp
  from upload_rejects_unsupported [of "JSObject [(''cloudProvider'', JSNumber 1)]" _
      "\<lambda>j p. Inr ''a''" "''0a1b2c''" "JSString ''aws''" "''{}''" server0 "JSNumber 1"] g2 a1 n
  have 4: "\<exists>msg. upload (\<lambda>j p. Inr ''a'') ''0a1b2c'' (JSObject [(''cloudProvider'', JSNumber 1)])
             (JSString ''aws'') ''{}'' server0 = (Response 500 msg, server0)" by simp
  from 1 2 3 4 show ?thesis by blast
qed

text \<open>
  Claim C4 as stated fails: \<^verbatim>\<open>AWS\<close> is not one of the three lower-case tokens, and
  the handler accepts it and cleans the generated text.
\<close>

theorem upload_accepts_upper_case:
  \<open>''AWS'' \<notin> set supportedProviders \<and>
   fst (upload (\<lambda>j p. Inr ''a\<newline>\<newline>\<newline>\<newline>b'') ''0a1b2c''
          (JSObject [(''cloudProvider'', JSString ''AWS'')]) JSUndefined ''{}'' server0) =
     Response 200 ''a\<newline>\<newline>b''\<close>
  by code_simp

subsection \<open>The settings of an Azure function\<close>

text \<open>
  Claim C9 at an \<^verbatim>\<open>app_settings\<close> block that holds the assignment
  \<^verbatim>\<open>FOO = "bar"\<close>: the block is removed, because the test \<^verbatim>\<open>/[a-zA-Z0-9_]+=/\<close>
  wants the equals sign right after the key.
\<close>

theorem azure_settings_removed:
  \<open>cleanTerraform ''azure'' azure_example =
     ''resource "azurerm_function_app" "f" {\<newline>  name = "f"\<newline>\<newline>}''\<close>
  by code_simp

subsection \<open>The blocks that the patterns find\<close>

text \<open>
  Claim C3 as stated fails. In a function with a nested \<^verbatim>\<open>environment\<close> block the
  pattern finds a block that ends at the first closing brace, with two braces still
  open; and in a \<^verbatim>\<open>local_file\<close> declaration whose content is the string
  \<^verbatim>\<open>"}"\<close> the block ends at the brace inside the string.
\<close>

theorem first_brace_closes_block:
  \<open>found (plain (rx_resource ''aws_lambda_function'')) nested_lambda = [nested_lambda_block] \<and>
   \<not> balanced 0 nested_lambda_block \<and>
   found (plain rx_local_file) brace_in_string = [''resource "local_file" "a" {\<newline>  content = "}'']\<close>
  by code_simp

text \<open>
  Claim C3, as the code has it. Every block that one of the three patterns finds is
  the head \<^verbatim>\<open>WORD "KIND" "NAME" {\<close> of a declaration of the kind asked for, followed
  by a text without a closing brace and by one closing brace: the block ends at the
  first closing brace after the opening one, wherever that brace stands.
\<close>

theorem block_runs_to_first_brace:
  "(w \<in> set (found (plain (rx_resource kind)) s) \<longrightarrow> runsToFirstBrace ''resource'' kind w) \<and>
   (w \<in> set (found (plain rx_local_file) s) \<longrightarrow> runsToFirstBrace ''resource'' ''local_file'' w) \<and>
   (w \<in> set (found (plain rx_archive_file) s) \<longrightarrow> runsToFirstBrace ''data'' ''archive_file'' w)"
  unfolding runsToFirstBrace_def local_file_header archive_file_header
  using resource_block [of w kind s] declaration_block [of w _ _ s] by blast

theorem block_runs_to_first_brace_witness:
  \<open>runsToFirstBrace ''resource'' ''aws_lambda_function'' nested_lambda_block \<and>
   runsToFirstBrace ''resource'' ''local_file'' ''resource "local_file" "a" {\<newline>  content = "}'' \<and>
   runsToFirstBrace ''data'' ''archive_file'' ''data "archive_file" "z" { type = "zip" }''\<close>
proof -
  have 1: "nested_lambda_block \<in> set (found (plain (rx_resource ''aws_lambda_function'')) nested_lambda)"
    by code_simp
  have 2: \<open>''resource "local_file" "a" {\<newline>  content = "}'' \<in> set (found (plain rx_local_file) brace_in_string)\<close>
    by code_simp
  have 3: \<open>''data "archive_file" "z" { type = "zip" }'' \<in>
           set (found (plain rx_archive_file) ''data "archive_file" "z" { type = "zip" } '')\<close>
    by code_simp
  from 1 block_runs_to_first_brace [of nested_lambda_block "''aws_lambda_function''" nested_lambda]
  have a: "runsToFirstBrace ''resource'' ''aws_lambda_function'' nested_lambda_block" by blast
  from 2 block_runs_to_first_brace [of _ "''aws_lambda_function''" brace_in_string]
  have b: \<open>runsToFirstBrace ''resource'' ''local_file'' ''resource "local_file" "a" {\<newline>  content = "}''\<close>
    by blast
  from 3 block_runs_to_first_brace [of _ "''aws_lambda_function''" \<open>''data "archive_file" "z" { type = "zip" } ''\<close>]
  have c: \<open>runsToFirstBrace ''data'' ''archive_file'' ''data "archive_file" "z" { type = "zip" }''\<close>
    by blast
  from a b c show ?thesis by blast
qed

subsection \<open>A function that has its inline source\<close>

text \<open>
  Claim C7 as stated fails. The function has \<^verbatim>\<open>source_code = "abc"\<close> behind a nested
  block: the block that the pattern finds ends at the first closing brace, the
  attribute is not in it, and a second \<^verbatim>\<open>source_code\<close> is written in front of
  that brace.
\<close>

theorem duplicate_after_nested_block:
  \<open>providerCleanups ''aws'' nested_lambda =
     ''resource "aws_lambda_function" "f" {\<newline>  handler = "h.x"\<newline>  runtime = "go1.x"\<newline>  environment {\<newline>    variables = { A = "b"   source_code      = "/* Placeholder code for h.x */"\<newline>}\<newline>  }\<newline>  source_code = "abc"\<newline>}\<newline>''\<close>
  by code_simp

text \<open>
  Claim C7, as the code has it, for a block as the pattern finds it. A block of an
  Amazon function with \<^verbatim>\<open>source_code\<close> as a quoted string or a \<^verbatim>\<open><<EOF\<close>
  text, a quoted \<^verbatim>\<open>handler\<close> and neither \<^verbatim>\<open>filename\<close> nor
  \<^verbatim>\<open>inline_code\<close> is returned as it is. A block of a Google function with a quoted
  \<^verbatim>\<open>source_archive_url\<close> and none of the four source attributes gets no second
  \<^verbatim>\<open>source_archive_url\<close>: the only line that can be added is the entry point, and
  with a quoted \<^verbatim>\<open>entry_point\<close> the block is returned as it is. A text in which
  every block found is of that kind is left unchanged by the stage of the provider.
\<close>

theorem inline_source_kept:
  \<open>(settledLambda b \<longrightarrow> lambdaBlockRewrite b = b) \<and>
   (quotedArchiveUrl b \<longrightarrow>
      gcpFunctionBlockRewrite b =
        ensureQuoted ''entry_point'' (blockContentIndent b @ ''entry_point        = "main"\<newline>'') b) \<and>
   (settledGcp b \<longrightarrow> gcpFunctionBlockRewrite b = b) \<and>
   ((\<forall>w\<in>set (found (plain (rx_resource ''aws_lambda_function'')) s). settledLambda w) \<longrightarrow>
      providerCleanups ''aws'' s = s) \<and>
   ((\<forall>w\<in>set (found (plain (rx_resource ''google_cloud_function'')) s). settledGcp w) \<longrightarrow>
      providerCleanups ''gcp'' s = s)\<close>
proof -
  have 1: "lambdaBlockRewrite b = b" if "settledLambda b" for b
    using that unfolding settledLambda_def
    by (simp add: lambdaBlockRewrite_def strip_lambda_none ensureHandler_def
        ensureSourceCode_def Let_def)
  have 2: \<open>gcpFunctionBlockRewrite b =
        ensureQuoted ''entry_point'' (blockContentIndent b @ ''entry_point        = "main"\<newline>'') b\<close>
    if "quotedArchiveUrl b" for b
    using that unfolding quotedArchiveUrl_def
    by (simp add: gcpFunctionBlockRewrite_def strip_gcp_none ensureQuoted_def Let_def)
  have 3: "gcpFunctionBlockRewrite b = b" if "settledGcp b" for b
    using that 2 [of b] unfolding settledGcp_def by (simp add: ensureQuoted_def)
  have 4: "providerCleanups ''aws'' s = s"
    if "\<forall>w\<in>set (found (plain (rx_resource ''aws_lambda_function'')) s). settledLambda w"
  proof -
    have "replaceAll (plain (rx_resource ''aws_lambda_function'')) (\<lambda>w g. lambdaBlockRewrite w) s = s"
      by (rule replaceAll_fixed) (use that 1 in blast)
    then show ?thesis by (simp add: providerCleanups_def toLowerCase_def lowerChar_def)
  qed
  have 5: "providerCleanups ''gcp'' s = s"
    if "\<forall>w\<in>set (found (plain (rx_resource ''google_cloud_function'')) s). settledGcp w"
  proof -
    have "replaceAll (plain (rx_resource ''google_cloud_function'')) (\<lambda>w g. gcpFunctionBlockRewrite w) s = s"
      by (rule replaceAll_fixed) (use that 3 in blast)
    then show ?thesis by (simp add: providerCleanups_def toLowerCase_def lowerChar_def)
  qed
  from 1 2 3 4 5 show ?thesis by blast
qed

theorem inline_source_kept_witness:
  \<open>providerCleanups ''aws'' (inline_lambda @ ''\<newline>'') = inline_lambda @ ''\<newline>'' \<and>
   providerCleanups ''gcp'' (url_function @ ''\<newline>'') = url_function @ ''\<newline>'' \<and>
   lambdaBlockRewrite inline_lambda = inline_lambda \<and>
   gcpFunctionBlockRewrite url_function = url_function\<close>
proof -
  have a: "settledLambda inline_lambda" by code_simp
  have g: "settledGcp url_function" by code_simp
  have q: "quotedArchiveUrl url_function" by code_simp
  have fa: \<open>found (plain (rx_resource ''aws_lambda_function'')) (inline_lambda @ ''\<newline>'') = [inline_lambda]\<close>
    by code_simp
  have fg: \<open>found (plain (rx_resource ''google_cloud_function'')) (url_function @ ''\<newline>'') = [url_function]\<close>
    by code_simp
  have 1: \<open>\<forall>w\<in>set (found (plain (rx_resource ''aws_lambda_function'')) (inline_lambda @ ''\<newline>'')). settledLambda w\<close>
    unfolding fa using a by simp
  have 2: \<open>\<forall>w\<in>set (found (plain (rx_resource ''google_cloud_function'')) (url_function @ ''\<newline>'')). settledGcp w\<close>
    unfolding fg using g by simp
  from inline_source_kept [of inline_lambda \<open>inline_lambda @ ''\<newline>''\<close>] a 1
  have x: \<open>lambdaBlockRewrite inline_lambda = inline_lambda \<and>
           providerCleanups ''aws'' (inline_lambda @ ''\<newline>'') = inline_lambda @ ''\<newline>''\<close> by blast
  from inline_source_kept [of url_function \<open>url_function @ ''\<newline>''\<close>] g q 2
  have y: \<open>gcpFunctionBlockRewrite url_function = url_function \<and>
           providerCleanups ''gcp'' (url_function @ ''\<newline>'') = url_function @ ''\<newline>''\<close> by blast
  from x y show ?thesis by blast
qed

subsection \<open>The removal of the declarations\<close>

text \<open>
  Claim C2 as stated fails. The text holds an \<^verbatim>\<open>archive_file\<close> declaration between
  the label and the name of what becomes a \<^verbatim>\<open>local_file\<close> declaration once the
  first is removed: the removal of \<^verbatim>\<open>local_file\<close> declarations has already run, and
  the result holds a declaration.
\<close>

theorem declaration_joined_by_removal:
  \<open>found (plain rx_archive_file) joined_declaration = [''data "archive_file" "z" {}''] \<and>
   genericCleanups joined_declaration = ''resource "local_file"  "a" {}'' \<and>
   found (plain rx_local_file) (genericCleanups joined_declaration) =
     [''resource "local_file"  "a" {}'']\<close>
  by code_simp

text \<open>
  Claim C2, as the code has it. A declaration that runs from its head to its first
  closing brace is removed when the text in front of it does not hold the label of
  its kind; that text is kept as it is, and the text behind the declaration is
  cleaned in the same way. A text without the label is left as it is. When the
  texts on the two sides of the declaration, put together, do not hold the label,
  no declaration of the kind is found in the result. The result of a removal is
  not searched again.
\<close>

theorem declaration_removed:
  \<open>(\<not> sublist ''"local_file"'' u \<and> runsToFirstBrace ''resource'' ''local_file'' d \<longrightarrow>
      removeLocalFiles (u @ d @ v) = u @ removeLocalFiles v) \<and>
   (\<not> sublist ''"archive_file"'' u \<and> runsToFirstBrace ''data'' ''archive_file'' d \<longrightarrow>
      removeArchiveFiles (u @ d @ v) = u @ removeArchiveFiles v) \<and>
   (\<not> sublist ''"local_file"'' s \<longrightarrow> removeLocalFiles s = s) \<and>
   (\<not> sublist ''"archive_file"'' s \<longrightarrow> removeArchiveFiles s = s) \<and>
   (\<not> sublist ''"local_file"'' (u @ v) \<and> runsToFirstBrace ''resource'' ''local_file'' d \<longrightarrow>
      found (plain rx_local_file) (removeLocalFiles (u @ d @ v)) = []) \<and>
   (\<not> sublist ''"archive_file"'' (u @ v) \<and> runsToFirstBrace ''data'' ''archive_file'' d \<longrightarrow>
      found (plain rx_archive_file) (removeArchiveFiles (u @ d @ v)) = [])\<close>
  using local_file_removed [of u d v] archive_file_removed [of u d v]
    local_file_none [of s] archive_file_none [of s]
    local_file_gone [of u v d] archive_file_gone [of u v d]
  by blast

theorem declaration_removed_witness:
  \<open>removeLocalFiles (''variable "a" {}\<newline>'' @ scenario_local @ ''\<newline>output "o" {}\<newline>'') =
     ''variable "a" {}\<newline>'' @ ''\<newline>output "o" {}\<newline>'' \<and>
   removeArchiveFiles (''variable "a" {}\<newline>'' @ scenario_archive @ ''\<newline>output "o" {}\<newline>'') =
     ''variable "a" {}\<newline>'' @ ''\<newline>output "o" {}\<newline>'' \<and>
   found (plain rx_local_file)
     (removeLocalFiles (''variable "a" {}\<newline>'' @ scenario_local @ ''\<newline>output "o" {}\<newline>'')) = [] \<and>
   found (plain rx_archive_file)
     (removeArchiveFiles (''variable "a" {}\<newline>'' @ scenario_archive @ ''\<newline>output "o" {}\<newline>'')) = []\<close>
proof -
  have u: \<open>\<not> sublist ''"local_file"'' ''variable "a" {}\<newline>''\<close>
    \<open>\<not> sublist ''"archive_file"'' ''variable "a" {}\<newline>''\<close> by code_simp+
  have v: \<open>\<not> sublist ''"local_file"'' ''\<newline>output "o" {}\<newline>''\<close>
    \<open>\<not> sublist ''"archive_file"'' ''\<newline>output "o" {}\<newline>''\<close> by code_simp+
  have uv: \<open>\<not> sublist ''"local_file"'' (''variable "a" {}\<newline>'' @ ''\<newline>output "o" {}\<newline>'')\<close>
    \<open>\<not> sublist ''"archive_file"'' (''variable "a" {}\<newline>'' @ ''\<newline>output "o" {}\<newline>'')\<close>
    by code_simp+
  have "scenario_local \<in> set (found (plain rx_local_file) scenario_local)" by code_simp
  then have l: "runsToFirstBrace ''resource'' ''local_file'' scenario_local" by (rule local_file_runs)
  have "scenario_archive \<in> set (found (plain rx_archive_file) scenario_archive)" by code_simp
  then have a: "runsToFirstBrace ''data'' ''archive_file'' scenario_archive" by (rule archive_file_runs)
  note t1 = declaration_removed [of \<open>''variable "a" {}\<newline>''\<close> scenario_local
      \<open>''\<newline>output "o" {}\<newline>''\<close> \<open>''\<newline>output "o" {}\<newline>''\<close>]
  note t2 = declaration_removed [of \<open>''variable "a" {}\<newline>''\<close> scenario_archive
      \<open>''\<newline>output "o" {}\<newline>''\<close> \<open>''\<newline>output "o" {}\<newline>''\<close>]
  from t1 u v l have 1: \<open>removeLocalFiles (''variable "a" {}\<newline>'' @ scenario_local @ ''\<newline>output "o" {}\<newline>'') =
     ''variable "a" {}\<newline>'' @ ''\<newline>output "o" {}\<newline>''\<close> by simp
  from t2 u v a have 2: \<open>removeArchiveFiles (''variable "a" {}\<newline>'' @ scenario_archive @ ''\<newline>output "o" {}\<newline>'') =
     ''variable "a" {}\<newline>'' @ ''\<newline>output "o" {}\<newline>''\<close> by simp
  from t1 uv l have 3: \<open>found (plain rx_local_file)
     (removeLocalFiles (''variable "a" {}\<newline>'' @ scenario_local @ ''\<newline>output "o" {}\<newline>'')) = []\<close>
    by blast
  from t2 uv a have 4: \<open>found (plain rx_archive_file)
     (removeArchiveFiles (''variable "a" {}\<newline>'' @ scenario_archive @ ''\<newline>output "o" {}\<newline>'')) = []\<close>
    by blast
  from 1 2 3 4 show ?thesis by blast
qed

subsection \<open>The scenario with the three declarations\<close>




end
